theory Spec2Isabelle
  imports Complex_Main "HOL-Library.AList"
begin

section \<open>Common data model\<close>

text \<open>The exceptions the modelled Python code raises, as values.\<close>

datatype error =
    ValueError
  | KeyError
  | TypeError
  | AttributeError
  | NotImplementedError
  | ZeroDivisionError
  | NotationGraphError

text \<open>
  A Python \<open>dict\<close> keeps insertion order: assigning to an existing key keeps its position,
  a new key goes to the end. It is modelled as an association list.
\<close>

type_synonym ('k, 'v) dict = "('k \<times> 'v) list"

definition dict_keys :: "('k, 'v) dict \<Rightarrow> 'k list" where
  "dict_keys d = map fst d"

definition dict_contains :: "('k, 'v) dict \<Rightarrow> 'k \<Rightarrow> bool" where
  "dict_contains d k = (map_of d k \<noteq> None)"

definition dict_get :: "('k, 'v) dict \<Rightarrow> 'k \<Rightarrow> error + 'v" where
  "dict_get d k = (case map_of d k of None \<Rightarrow> Inl KeyError | Some v \<Rightarrow> Inr v)"

definition dict_set :: "('k, 'v) dict \<Rightarrow> 'k \<Rightarrow> 'v \<Rightarrow> ('k, 'v) dict" where
  "dict_set d k v = AList.update k v d"

definition dict_del :: "('k, 'v) dict \<Rightarrow> 'k \<Rightarrow> error + ('k, 'v) dict" where
  "dict_del d k = (if dict_contains d k then Inr (AList.delete k d) else Inl KeyError)"

text \<open>Class names of \<open>ClassNamesConstants\<close> and the groups of \<open>InferenceEngineConstants\<close>.\<close>

definition STAFF :: string where "STAFF = ''staff''"
definition TIE_CLASS_NAME :: string where "TIE_CLASS_NAME = ''tie''"
definition G_CLEF :: string where "G_CLEF = ''gClef''"
definition C_CLEF :: string where "C_CLEF = ''cClef''"
definition F_CLEF :: string where "F_CLEF = ''fClef''"
definition NOTEHEAD_FULL :: string where "NOTEHEAD_FULL = ''noteheadFull''"
definition NOTEHEAD_HALF :: string where "NOTEHEAD_HALF = ''noteheadHalf''"
definition NOTEHEAD_WHOLE :: string where "NOTEHEAD_WHOLE = ''noteheadWhole''"
definition TIME_SIG_COMMON :: string where "TIME_SIG_COMMON = ''timeSigCommon''"
definition TIME_SIG_CUT_COMMON :: string where "TIME_SIG_CUT_COMMON = ''timeSigCutCommon''"
definition LETTER_OTHER :: string where "LETTER_OTHER = ''characterOther''"


definition NUMERALS :: "string list" where
  "NUMERALS = [''numeral0'', ''numeral1'', ''numeral2'', ''numeral3'', ''numeral4'',
               ''numeral5'', ''numeral6'', ''numeral7'', ''numeral8'', ''numeral9'']"

definition TIME_SIGNATURE_MEMBERS :: "string list" where
  "TIME_SIGNATURE_MEMBERS = [TIME_SIG_COMMON, TIME_SIG_CUT_COMMON] @ NUMERALS"

text \<open>
  A symbol node (\<open>mung.node.Node\<close>): identity, class name, bounding box, the attachment
  link lists and the two optional precedence link lists of its \<open>data\<close> dictionary
  (\<open>None\<close> when the key is absent).
\<close>

record node =
  node_id :: int
  class_name :: string
  n_top :: int
  n_left :: int
  n_bottom :: int
  n_right :: int
  inlinks :: "int list"
  outlinks :: "int list"
  precedence_inlinks :: "int list option"
  precedence_outlinks :: "int list option"

section \<open>Pitch inference state\<close>

record pitch_state =
  base_pitch :: "int option"
  base_pitch_step :: "int option"
  base_pitch_octave :: "int option"
  current_clef :: "node option"
  current_delta_steps :: "int list option"
  current_clef_delta_shift :: int
  key_accidentals :: "(int, string) dict"
  inline_accidentals :: "(int, string) dict"

text \<open>\<open>PitchInferenceEngineState.__init__\<close>\<close>

definition PitchInferenceEngineState :: pitch_state where
  "PitchInferenceEngineState =
     \<lparr> base_pitch = None, base_pitch_step = None, base_pitch_octave = None,
       current_clef = None, current_delta_steps = None, current_clef_delta_shift = 0,
       key_accidentals = [], inline_accidentals = [] \<rparr>"

text \<open>\<open>CLEF_CHANGE_DELTA[from][to]\<close>; a class name outside the table is a \<open>KeyError\<close>.\<close>

definition CLEF_CHANGE_DELTA :: "string \<Rightarrow> string \<Rightarrow> error + int" where
  "CLEF_CHANGE_DELTA from_clef to_clef =
     (if from_clef = G_CLEF then
        (if to_clef = G_CLEF then Inr 0 else if to_clef = C_CLEF then Inr 6
         else if to_clef = F_CLEF then Inr 12 else Inl KeyError)
      else if from_clef = C_CLEF then
        (if to_clef = G_CLEF then Inr (- 6) else if to_clef = C_CLEF then Inr 0
         else if to_clef = F_CLEF then Inr 6 else Inl KeyError)
      else if from_clef = F_CLEF then
        (if to_clef = G_CLEF then Inr (- 12) else if to_clef = C_CLEF then Inr (- 6)
         else if to_clef = F_CLEF then Inr 0 else Inl KeyError)
      else Inl KeyError)"

text \<open>A dictionary comprehension \<open>{f(d): v for d, v in items}\<close>.\<close>

definition dict_rekey :: "('k \<Rightarrow> 'k) \<Rightarrow> ('k, 'v) dict \<Rightarrow> ('k, 'v) dict" where
  "dict_rekey f d = fold (\<lambda>(k, v) acc. dict_set acc (f k) v) d []"

text \<open>
  \<open>init_base_pitch_default_staffline\<close>: the base pitch from the clef's class name alone.
  With a clef already in force the accidental maps are re-indexed by the transposition
  delta; there the new clef's class name is read, which fails on \<open>None\<close>.
\<close>

definition clef_tables :: "node option \<Rightarrow> error + (int \<times> int list \<times> int \<times> int)" where
  "clef_tables clef =
     (if clef = None \<or> class_name (the clef) = G_CLEF
        then Inr (71, [0, 1, 2, 2, 1, 2, 2, 2], 6, 4)
      else if class_name (the clef) = F_CLEF
        then Inr (50, [0, 2, 1, 2, 2, 2, 1, 2], 1, 3)
      else if class_name (the clef) = C_CLEF
        then Inr (60, [0, 2, 2, 1, 2, 2, 2, 1], 0, 4)
      else Inl ValueError)"

definition shift_accidentals :: "pitch_state \<Rightarrow> node option \<Rightarrow> error + pitch_state" where
  "shift_accidentals s clef =
     (case current_clef s of
        None \<Rightarrow> Inr s
      | Some cur \<Rightarrow>
          (case clef of
             None \<Rightarrow> Inl AttributeError
           | Some c \<Rightarrow>
               (case CLEF_CHANGE_DELTA (class_name cur) (class_name c) of
                  Inl e \<Rightarrow> Inl e
                | Inr transposition_delta \<Rightarrow>
                    if transposition_delta \<noteq> 0
                    then Inr (s\<lparr> key_accidentals :=
                                   dict_rekey (\<lambda>d. (d + transposition_delta) mod 7)
                                     (key_accidentals s),
                                 inline_accidentals :=
                                   dict_rekey (\<lambda>d. d + transposition_delta)
                                     (inline_accidentals s) \<rparr>)
                    else Inr s)))"

definition init_base_pitch_default_staffline ::
    "pitch_state \<Rightarrow> node option \<Rightarrow> error + pitch_state" where
  "init_base_pitch_default_staffline s clef =
     (case clef_tables clef of
        Inl e \<Rightarrow> Inl e
      | Inr (new_base_pitch, new_delta_steps, new_base_pitch_step, new_base_pitch_octave) \<Rightarrow>
          (case shift_accidentals s clef of
             Inl e \<Rightarrow> Inl e
           | Inr s' \<Rightarrow>
               Inr (s'\<lparr> base_pitch := Some new_base_pitch,
                        base_pitch_step := Some new_base_pitch_step,
                        base_pitch_octave := Some new_base_pitch_octave,
                        current_clef := clef,
                        current_delta_steps := Some new_delta_steps \<rparr>)))"

text \<open>\<open>set_key\<close>: the key signature's accidentals by diatonic step, overwriting the map.\<close>

definition key_deltas :: "node option \<Rightarrow> error + (int list \<times> int list)" where
  "key_deltas clef =
     (if clef = None \<or> class_name (the clef) = G_CLEF
        then Inr ([4, 1, 5, 2, 6, 3, 0], [0, 3, 6, 2, 5, 1, 4])
      else if class_name (the clef) = C_CLEF
        then Inr ([3, 0, 4, 1, 5, 2, 6], [6, 2, 5, 1, 4, 0, 3])
      else if class_name (the clef) = F_CLEF
        then Inr ([2, 6, 3, 0, 4, 1, 5], [5, 1, 4, 0, 3, 6, 2])
      else Inl ValueError)"

text \<open>A slice \<open>xs[:n]\<close> with an integer bound: a negative bound counts from the end.\<close>

definition slice_to :: "'a list \<Rightarrow> int \<Rightarrow> 'a list" where
  "slice_to xs n = (if n < 0 then take (nat (int (length xs) + n)) xs else take (nat n) xs)"

definition set_key :: "pitch_state \<Rightarrow> int \<Rightarrow> int \<Rightarrow> error + pitch_state" where
  "set_key s number_of_sharps number_of_flats =
     (if number_of_flats + number_of_sharps > 7 then Inl ValueError
      else if base_pitch s = None then Inl ValueError
      else
        (case key_deltas (current_clef s) of
           Inl e \<Rightarrow> Inl e
         | Inr (deltas_sharp, deltas_flat) \<Rightarrow>
             Inr (s\<lparr> key_accidentals :=
                       fold (\<lambda>d acc. dict_set acc d ''flat'')
                         (slice_to deltas_flat number_of_flats)
                         (fold (\<lambda>d acc. dict_set acc d ''sharp'')
                            (slice_to deltas_sharp number_of_sharps) []) \<rparr>)))"

text \<open>\<open>accidental\<close>: the semitone modification at a staffline delta; inline overrides key.\<close>

definition accidental :: "pitch_state \<Rightarrow> int \<Rightarrow> int" where
  "accidental s delta =
     (let step_delta = delta mod 7;
          pitch_mod =
            (case map_of (key_accidentals s) step_delta of
               None \<Rightarrow> 0
             | Some a \<Rightarrow>
                 if a = ''sharp'' then 1
                 else if a = ''double_sharp'' then 2
                 else if a = ''flat'' then - 1
                 else if a = ''double_flat'' then - 2
                 else 0)
      in (case map_of (inline_accidentals s) delta of
            None \<Rightarrow> pitch_mod
          | Some a \<Rightarrow>
              if a = ''natural'' then 0
              else if a = ''sharp'' then 1
              else if a = ''double_sharp'' then 2
              else if a = ''flat'' then - 1
              else if a = ''double_flat'' then - 2
              else pitch_mod))"

text \<open>
  \<open>pitch\<close>: base pitch, plus the step increments up to \<open>delta mod 7\<close>, plus twelve per
  octave, plus the accidental. Python's \<open>%\<close> and \<open>//\<close> round down, as \<open>mod\<close> and \<open>div\<close>
  on \<open>int\<close> do. The accidental is looked up at the shifted delta, since the parameter is
  reassigned.
\<close>

definition pitch :: "pitch_state \<Rightarrow> int \<Rightarrow> error + int" where
  "pitch s delta0 =
     (let delta = delta0 + current_clef_delta_shift s;
          delta_step = delta mod 7;
          delta_octave = delta div 7
      in (case base_pitch s of
            None \<Rightarrow> Inl TypeError
          | Some bp \<Rightarrow>
              (case current_delta_steps s of
                 None \<Rightarrow> Inl TypeError
               | Some steps \<Rightarrow>
                   Inr (bp + sum_list (slice_to steps (delta_step + 1)) + delta_octave * 12
                        + accidental s delta))))"

section \<open>The notation graph\<close>

text \<open>
  \<open>NotationGraph\<close> holds the list of its node objects and an index from id to node
  object. The node objects are shared between the two, and every mutation goes through the
  index; with ids unique within a graph an object is identified with its id, so the list
  is kept as the list of ids and the index holds the objects.
\<close>

record graph =
  nodes :: "int list"
  id_to_node_mapping :: "int \<rightharpoonup> node"

text \<open>\<open>NotationGraph.__init__\<close>: in the index a later node of the same id wins.\<close>

definition NotationGraph :: "node list \<Rightarrow> graph" where
  "NotationGraph ns =
     \<lparr> nodes = map node_id ns,
       id_to_node_mapping = map_of (rev (map (\<lambda>n. (node_id n, n)) ns)) \<rparr>"

text \<open>A class filter after \<open>__to__iterable\<close>: absent, or a list of class names.\<close>

definition passes :: "string list option \<Rightarrow> node \<Rightarrow> bool" where
  "passes class_filter n =
     (case class_filter of None \<Rightarrow> True | Some cs \<Rightarrow> class_name n \<in> set cs)"

text \<open>
  \<open>children\<close> and \<open>parents\<close>: the direct neighbours that are in the graph and pass the
  filter, in link order. For an id outside the graph the error message itself indexes
  the mapping, so what is raised is \<open>KeyError\<close>.
\<close>

definition neighbours :: "graph \<Rightarrow> string list option \<Rightarrow> int list \<Rightarrow> node list" where
  "neighbours g class_filter ids =
     List.map_filter
       (\<lambda>i. case id_to_node_mapping g i of
               None \<Rightarrow> None
             | Some n \<Rightarrow> if passes class_filter n then Some n else None)
       ids"

definition children :: "graph \<Rightarrow> int \<Rightarrow> string list option \<Rightarrow> error + node list" where
  "children g i class_filter =
     (case id_to_node_mapping g i of
        None \<Rightarrow> Inl KeyError
      | Some parent \<Rightarrow> Inr (neighbours g class_filter (outlinks parent)))"

definition parents :: "graph \<Rightarrow> int \<Rightarrow> string list option \<Rightarrow> error + node list" where
  "parents g i class_filter =
     (case id_to_node_mapping g i of
        None \<Rightarrow> Inl KeyError
      | Some child \<Rightarrow> Inr (neighbours g class_filter (inlinks child)))"

text \<open>\<open>[self.__id_to_node_mapping[o] for o in ids]\<close>\<close>

fun nodes_of :: "graph \<Rightarrow> int list \<Rightarrow> error + node list" where
  "nodes_of g [] = Inr []"
| "nodes_of g (i # is) =
     (case id_to_node_mapping g i of
        None \<Rightarrow> Inl KeyError
      | Some n \<Rightarrow> (case nodes_of g is of Inl e \<Rightarrow> Inl e | Inr ns \<Rightarrow> Inr (n # ns)))"

subsection \<open>Descendants and ancestors\<close>

text \<open>
  Both walks keep a \<open>queue.Queue\<close>. \<open>descendants\<close> tests \<open>child_id not in queue\<close> on the
  \<open>Queue\<close> object, which has neither \<open>__contains__\<close> nor \<open>__iter__\<close>: the test raises
  \<open>TypeError\<close>. \<open>ancestors\<close> tests against \<open>queue.queue\<close>, the deque of pending ids.
\<close>

definition Queue_contains :: "int list \<Rightarrow> int \<Rightarrow> error + bool" where
  "Queue_contains pending x = Inl TypeError"

definition deque_contains :: "int list \<Rightarrow> int \<Rightarrow> error + bool" where
  "deque_contains pending x = Inr (x \<in> set pending)"

text \<open>The inner loop: \<open>for x in ids: if x not in queue: queue.put(x)\<close>.\<close>

fun put_absent ::
    "(int list \<Rightarrow> int \<Rightarrow> error + bool) \<Rightarrow> int list \<Rightarrow> int list \<Rightarrow> error + int list" where
  "put_absent contains pending [] = Inr pending"
| "put_absent contains pending (x # xs) =
     (case contains pending x of
        Inl e \<Rightarrow> Inl e
      | Inr present \<Rightarrow> put_absent contains (if present then pending else pending @ [x]) xs)"

text \<open>
  The outer \<open>while not queue.empty()\<close> loop. It need not end (a cycle keeps the queue
  of \<open>ancestors\<close> filled), so not returning is the value \<open>None\<close>.
\<close>

partial_function (option) closure_loop ::
    "(int list \<Rightarrow> int \<Rightarrow> error + bool) \<Rightarrow> (int \<Rightarrow> error + node list) \<Rightarrow> int
      \<Rightarrow> int list \<Rightarrow> int list \<Rightarrow> (error + int list) option" where
  "closure_loop contains next_of start pending found =
     (case pending of
        [] \<Rightarrow> Some (Inr found)
      | current # rest \<Rightarrow>
          (case next_of current of
             Inl e \<Rightarrow> Some (Inl e)
           | Inr ns \<Rightarrow>
               (case put_absent contains rest (map node_id ns) of
                  Inl e \<Rightarrow> Some (Inl e)
                | Inr pending' \<Rightarrow>
                    closure_loop contains next_of start pending'
                      (if current \<noteq> start then found @ [current] else found))))"

definition finish_closure :: "graph \<Rightarrow> (error + int list) option \<Rightarrow> (error + node list) option" where
  "finish_closure g r =
     (case r of
        None \<Rightarrow> None
      | Some (Inl e) \<Rightarrow> Some (Inl e)
      | Some (Inr ids) \<Rightarrow> Some (nodes_of g ids))"

definition descendants :: "graph \<Rightarrow> int \<Rightarrow> string list option \<Rightarrow> (error + node list) option" where
  "descendants g i class_filter =
     finish_closure g
       (closure_loop Queue_contains (\<lambda>c. children g c class_filter) i [i] [])"

definition ancestors :: "graph \<Rightarrow> int \<Rightarrow> string list option \<Rightarrow> (error + node list) option" where
  "ancestors g i class_filter =
     finish_closure g
       (closure_loop deque_contains (\<lambda>c. parents g c class_filter) i [i] [])"

subsection \<open>Mutators\<close>

text \<open>
  A mutator changes node objects in place and may raise after some of its changes are
  done. Its model returns the exception raised, if any, together with the graph as the
  call leaves it.
\<close>

type_synonym outcome = "error option \<times> graph"

definition in_graph :: "graph \<Rightarrow> int \<Rightarrow> bool" where
  "in_graph g i = (id_to_node_mapping g i \<noteq> None)"

definition outs :: "graph \<Rightarrow> int \<Rightarrow> int list" where
  "outs g i = (case id_to_node_mapping g i of None \<Rightarrow> [] | Some n \<Rightarrow> outlinks n)"

definition ins :: "graph \<Rightarrow> int \<Rightarrow> int list" where
  "ins g i = (case id_to_node_mapping g i of None \<Rightarrow> [] | Some n \<Rightarrow> inlinks n)"

definition modify :: "graph \<Rightarrow> int \<Rightarrow> (node \<Rightarrow> node) \<Rightarrow> graph" where
  "modify g i f =
     (case id_to_node_mapping g i of
        None \<Rightarrow> g
      | Some n \<Rightarrow> g\<lparr> id_to_node_mapping := (id_to_node_mapping g)(i \<mapsto> f n) \<rparr>)"

definition set_outs :: "graph \<Rightarrow> int \<Rightarrow> int list \<Rightarrow> graph" where
  "set_outs g i xs = modify g i (\<lambda>n. n\<lparr> outlinks := xs \<rparr>)"

definition set_ins :: "graph \<Rightarrow> int \<Rightarrow> int list \<Rightarrow> graph" where
  "set_ins g i xs = modify g i (\<lambda>n. n\<lparr> inlinks := xs \<rparr>)"

text \<open>
  Modelled from the spec: the properties \<open>precedence_inlinks\<close> and \<open>precedence_outlinks\<close>
  of \<open>Node\<close> and its methods \<open>add_precedence_inlinks\<close> and \<open>add_precedence_outlinks\<close>, which
  are defined in \<open>mung.node\<close>. The data model has the two lists as optional entries of the
  node's attribute map: the property reads the list, empty when the entry is absent, and
  the method appends an id, creating the entry when it is absent.
\<close>

definition has_p_outs :: "graph \<Rightarrow> int \<Rightarrow> bool" where
  "has_p_outs g i =
     (case id_to_node_mapping g i of None \<Rightarrow> False | Some n \<Rightarrow> precedence_outlinks n \<noteq> None)"

definition has_p_ins :: "graph \<Rightarrow> int \<Rightarrow> bool" where
  "has_p_ins g i =
     (case id_to_node_mapping g i of None \<Rightarrow> False | Some n \<Rightarrow> precedence_inlinks n \<noteq> None)"

definition p_outs :: "graph \<Rightarrow> int \<Rightarrow> int list" where
  "p_outs g i =
     (case id_to_node_mapping g i of
        None \<Rightarrow> []
      | Some n \<Rightarrow> (case precedence_outlinks n of None \<Rightarrow> [] | Some xs \<Rightarrow> xs))"

definition p_ins :: "graph \<Rightarrow> int \<Rightarrow> int list" where
  "p_ins g i =
     (case id_to_node_mapping g i of
        None \<Rightarrow> []
      | Some n \<Rightarrow> (case precedence_inlinks n of None \<Rightarrow> [] | Some xs \<Rightarrow> xs))"

definition set_p_outs :: "graph \<Rightarrow> int \<Rightarrow> int list \<Rightarrow> graph" where
  "set_p_outs g i xs = modify g i (\<lambda>n. n\<lparr> precedence_outlinks := Some xs \<rparr>)"

definition set_p_ins :: "graph \<Rightarrow> int \<Rightarrow> int list \<Rightarrow> graph" where
  "set_p_ins g i xs = modify g i (\<lambda>n. n\<lparr> precedence_inlinks := Some xs \<rparr>)"

text \<open>A \<open>for\<close> loop over a list fixed beforehand, left at the first exception.\<close>

fun for_each :: "('a \<Rightarrow> graph \<Rightarrow> outcome) \<Rightarrow> 'a list \<Rightarrow> graph \<Rightarrow> outcome" where
  "for_each body [] g = (None, g)"
| "for_each body (x # xs) g =
     (case body x g of
        (Some e, g') \<Rightarrow> (Some e, g')
      | (None, g') \<Rightarrow> for_each body xs g')"

text \<open>\<open>add_edge\<close>\<close>

definition add_edge :: "graph \<Rightarrow> int \<Rightarrow> int \<Rightarrow> outcome" where
  "add_edge g from_id to_id =
     (if \<not> in_graph g from_id then (Some NotationGraphError, g)
      else if \<not> in_graph g to_id then (Some NotationGraphError, g)
      else if to_id \<in> set (outs g from_id) then
        (if from_id \<in> set (ins g to_id) then (None, g)
         else (Some NotationGraphError, g))
      else if from_id \<in> set (ins g to_id) then (Some NotationGraphError, g)
      else
        (let g1 = set_outs g from_id (outs g from_id @ [to_id]);
             g2 = set_ins g1 to_id (ins g1 to_id @ [from_id])
         in (None, g2)))"

text \<open>\<open>remove_edge\<close>; \<open>list.remove\<close> takes out the first occurrence and raises when there is none.\<close>

definition remove_edge :: "graph \<Rightarrow> int \<Rightarrow> int \<Rightarrow> bool \<Rightarrow> outcome" where
  "remove_edge g from_id to_id suppress_not_in_list_error =
     (if \<not> in_graph g from_id then (Some ValueError, g)
      else if \<not> in_graph g to_id then (Some ValueError, g)
      else if suppress_not_in_list_error \<and> to_id \<notin> set (outs g from_id) then (None, g)
      else if suppress_not_in_list_error \<and> from_id \<notin> set (ins g to_id) then (None, g)
      else if to_id \<notin> set (outs g from_id) then (Some ValueError, g)
      else
        (let g1 = set_outs g from_id (remove1 to_id (outs g from_id))
         in if from_id \<notin> set (ins g1 to_id) then (Some ValueError, g1)
            else (None, set_ins g1 to_id (remove1 from_id (ins g1 to_id)))))"

text \<open>
  \<open>remove_edges_for_vertex\<close>: the copy of the outlinks is taken when the second loop
  starts, after the first loop has run.
\<close>

definition remove_edges_for_vertex :: "graph \<Rightarrow> int \<Rightarrow> outcome" where
  "remove_edges_for_vertex g node_id' =
     (if \<not> in_graph g node_id' then (Some ValueError, g)
      else
        (case for_each (\<lambda>inlink h. remove_edge h inlink node_id' False) (ins g node_id') g of
           (Some e, g1) \<Rightarrow> (Some e, g1)
         | (None, g1) \<Rightarrow>
             for_each (\<lambda>outlink h. remove_edge h node_id' outlink False) (outs g1 node_id') g1))"

text \<open>\<open>remove_vertex\<close>\<close>

definition remove_vertex :: "graph \<Rightarrow> int \<Rightarrow> outcome" where
  "remove_vertex g node_id' =
     (case remove_edges_for_vertex g node_id' of
        (Some e, g1) \<Rightarrow> (Some e, g1)
      | (None, g1) \<Rightarrow>
          (None, g1\<lparr> nodes := remove1 node_id' (nodes g1),
                     id_to_node_mapping := (id_to_node_mapping g1)(node_id' := None) \<rparr>))"

text \<open>\<open>add_precedence_edge\<close>\<close>

definition add_precedence_edge :: "graph \<Rightarrow> int \<Rightarrow> int \<Rightarrow> outcome" where
  "add_precedence_edge g from_id to_id =
     (if \<not> in_graph g from_id then (Some NotationGraphError, g)
      else if \<not> in_graph g to_id then (Some NotationGraphError, g)
      else if to_id \<in> set (p_outs g from_id) then
        (if from_id \<in> set (p_ins g to_id) then (None, g)
         else (Some NotationGraphError, g))
      else if from_id \<in> set (p_ins g to_id) then (Some NotationGraphError, g)
      else
        (let g1 = set_p_outs g from_id (p_outs g from_id @ [to_id]);
             g2 = set_p_ins g1 to_id (p_ins g1 to_id @ [from_id])
         in (None, g2)))"

text \<open>\<open>remove_precedence_edge\<close>\<close>

definition remove_precedence_edge :: "graph \<Rightarrow> int \<Rightarrow> int \<Rightarrow> bool \<Rightarrow> outcome" where
  "remove_precedence_edge g from_id to_id suppress_not_in_list_error =
     (if \<not> in_graph g from_id then (Some ValueError, g)
      else if \<not> in_graph g to_id then (Some ValueError, g)
      else if suppress_not_in_list_error \<and> to_id \<notin> set (p_outs g from_id) then (None, g)
      else if suppress_not_in_list_error \<and> from_id \<notin> set (p_ins g to_id) then (None, g)
      else if to_id \<notin> set (p_outs g from_id) then (Some ValueError, g)
      else
        (let g1 = set_p_outs g from_id (remove1 to_id (p_outs g from_id))
         in if from_id \<notin> set (p_ins g1 to_id) then (Some ValueError, g1)
            else (None, set_p_ins g1 to_id (remove1 from_id (p_ins g1 to_id)))))"

text \<open>
  \<open>remove_from_precedence\<close>: the three loops. The lists of predecessors and descendants
  are copied before the first loop.
\<close>

definition unlink_predecessor :: "int \<Rightarrow> int \<Rightarrow> graph \<Rightarrow> outcome" where
  "unlink_predecessor node_id' predecessor_id g =
     (if \<not> in_graph g predecessor_id then (Some KeyError, g)
      else if \<not> has_p_outs g predecessor_id then (Some ValueError, g)
      else if node_id' \<notin> set (p_outs g predecessor_id) then (Some ValueError, g)
      else
        (let g1 = set_p_outs g predecessor_id (remove1 node_id' (p_outs g predecessor_id))
         in if predecessor_id \<notin> set (p_ins g1 node_id') then (Some ValueError, g1)
            else (None, set_p_ins g1 node_id' (remove1 predecessor_id (p_ins g1 node_id')))))"

definition unlink_descendant :: "int \<Rightarrow> int \<Rightarrow> graph \<Rightarrow> outcome" where
  "unlink_descendant node_id' descendant_id g =
     (if \<not> in_graph g descendant_id then (Some KeyError, g)
      else if \<not> has_p_ins g descendant_id then (Some ValueError, g)
      else if node_id' \<notin> set (p_ins g descendant_id) then (Some ValueError, g)
      else
        (let g1 = set_p_ins g descendant_id (remove1 node_id' (p_ins g descendant_id))
         in if descendant_id \<notin> set (p_outs g1 node_id') then (Some ValueError, g1)
            else (None, set_p_outs g1 node_id' (remove1 descendant_id (p_outs g1 node_id')))))"

definition bridge :: "int \<Rightarrow> int \<Rightarrow> graph \<Rightarrow> outcome" where
  "bridge predecessor_id descendant_id g =
     (if \<not> in_graph g descendant_id then (Some KeyError, g)
      else if \<not> has_p_outs g predecessor_id then (Some KeyError, g)
      else
        (let g1 = (if descendant_id \<notin> set (p_outs g predecessor_id)
                   then set_p_outs g predecessor_id (p_outs g predecessor_id @ [descendant_id])
                   else g)
         in if \<not> has_p_ins g1 descendant_id then (Some KeyError, g1)
            else if predecessor_id \<notin> set (p_ins g1 descendant_id)
            then (None, set_p_ins g1 descendant_id (p_ins g1 descendant_id @ [predecessor_id]))
            else (None, g1)))"

definition bridge_all :: "int list \<Rightarrow> int \<Rightarrow> graph \<Rightarrow> outcome" where
  "bridge_all descendants' predecessor_id g =
     (if \<not> in_graph g predecessor_id then (Some KeyError, g)
      else for_each (bridge predecessor_id) descendants' g)"

definition remove_from_precedence :: "graph \<Rightarrow> int \<Rightarrow> outcome" where
  "remove_from_precedence g node_id' =
     (if \<not> in_graph g node_id' then (Some KeyError, g)
      else
        (let predecessors = p_ins g node_id';
             descendants' = p_outs g node_id'
         in if predecessors = [] \<and> descendants' = [] then (None, g)
            else
              (case for_each (unlink_predecessor node_id') predecessors g of
                 (Some e, g1) \<Rightarrow> (Some e, g1)
               | (None, g1) \<Rightarrow>
                   (case for_each (unlink_descendant node_id') descendants' g1 of
                      (Some e, g2) \<Rightarrow> (Some e, g2)
                    | (None, g2) \<Rightarrow> for_each (bridge_all descendants') predecessors g2))))"

text \<open>
  Reciprocity of the two link relations over the nodes of the graph, and the link lists
  free of repetitions, as lists that stand for relations are.
\<close>

definition reciprocal :: "graph \<Rightarrow> bool" where
  "reciprocal g =
     (\<forall>a b. in_graph g a \<and> in_graph g b \<longrightarrow>
        (b \<in> set (outs g a) \<longleftrightarrow> a \<in> set (ins g b)))"

definition precedence_reciprocal :: "graph \<Rightarrow> bool" where
  "precedence_reciprocal g =
     (\<forall>a b. in_graph g a \<and> in_graph g b \<longrightarrow>
        (b \<in> set (p_outs g a) \<longleftrightarrow> a \<in> set (p_ins g b)))"

definition links_distinct :: "graph \<Rightarrow> bool" where
  "links_distinct g =
     (\<forall>a. distinct (outs g a) \<and> distinct (ins g a)
          \<and> distinct (p_outs g a) \<and> distinct (p_ins g a))"

definition consistent :: "graph \<Rightarrow> bool" where
  "consistent g = (reciprocal g \<and> precedence_reciprocal g \<and> links_distinct g)"

text \<open>The graphs reached from a graph by calls of the public mutators, raising or not.\<close>

inductive reachable :: "graph \<Rightarrow> graph \<Rightarrow> bool" for g0 :: graph where
  start: "reachable g0 g0"
| by_add_edge: "reachable g0 g \<Longrightarrow> reachable g0 (snd (add_edge g a b))"
| by_remove_edge: "reachable g0 g \<Longrightarrow> reachable g0 (snd (remove_edge g a b s))"
| by_remove_vertex: "reachable g0 g \<Longrightarrow> reachable g0 (snd (remove_vertex g a))"
| by_remove_edges_for_vertex:
    "reachable g0 g \<Longrightarrow> reachable g0 (snd (remove_edges_for_vertex g a))"
| by_add_precedence_edge:
    "reachable g0 g \<Longrightarrow> reachable g0 (snd (add_precedence_edge g a b))"
| by_remove_precedence_edge:
    "reachable g0 g \<Longrightarrow> reachable g0 (snd (remove_precedence_edge g a b s))"
| by_remove_from_precedence:
    "reachable g0 g \<Longrightarrow> reachable g0 (snd (remove_from_precedence g a))"

text \<open>What the bridging loop of \<open>remove_from_precedence\<close> relies on.\<close>

definition bridge_ready :: "int list \<Rightarrow> int list \<Rightarrow> graph \<Rightarrow> bool" where
  "bridge_ready ps ds g =
     ((\<forall>p \<in> set ps. in_graph g p \<and> has_p_outs g p)
      \<and> (\<forall>d \<in> set ds. in_graph g d \<and> has_p_ins g d))"

text \<open>The precedence part of \<open>consistent\<close>.\<close>

definition precedence_consistent :: "graph \<Rightarrow> bool" where
  "precedence_consistent g =
     (precedence_reciprocal g \<and> (\<forall>a. distinct (p_outs g a) \<and> distinct (p_ins g a)))"

text \<open>Node \<open>p\<close> precedes node \<open>d\<close>, as both record it.\<close>

definition bridged :: "int \<Rightarrow> int \<Rightarrow> graph \<Rightarrow> bool" where
  "bridged p d g = (d \<in> set (p_outs g p) \<and> p \<in> set (p_ins g d))"

section \<open>Onset propagation\<close>

text \<open>\<open>BaseOnsetsInferenceStrategy\<close> and its defaults.\<close>

record strategy =
  permissive_desynchronization :: bool
  precedence_only_for_objects_connected_to_staff :: bool
  permissive :: bool
  link_sinks_to_sources_at_ends_and_starts_of_systems :: bool

definition BaseOnsetsInferenceStrategy :: strategy where
  "BaseOnsetsInferenceStrategy =
     \<lparr> permissive_desynchronization = True,
       precedence_only_for_objects_connected_to_staff = True,
       permissive = True,
       link_sinks_to_sources_at_ends_and_starts_of_systems = True \<rparr>"

text \<open>
  \<open>PrecedenceGraphNode\<close>. The nodes are kept in the dictionary \<open>p_nodes\<close> under the id of
  the symbol they wrap, and the references between them are kept as these ids.
\<close>

record pnode =
  p_inlinks :: "int list"
  p_outlinks :: "int list"
  onset :: "rat option"
  duration :: rat

text \<open>The state of the walk in \<open>onsets\<close>, with the warnings it logs.\<close>

datatype warning = Not_synchronized int

record walk_state =
  queue :: "int list"
  qstart :: nat
  delayed_prec_nodes :: "int list"
  p_nodes :: "int \<rightharpoonup> pnode"
  table :: "(int, rat) dict"
  warnings :: "warning list"

datatype 'a flow = Continue 'a | Break 'a

text \<open>\<open>for post_q in q.outlinks: if post_q not in queue: queue.append(post_q)\<close>\<close>

definition append_absent :: "int list \<Rightarrow> int list \<Rightarrow> int list" where
  "append_absent pending posts =
     fold (\<lambda>post_q acc. if post_q \<in> set acc then acc else acc @ [post_q]) posts pending"

text \<open>The predecessors of a node; a reference always leads to a node of the dictionary.\<close>

fun nodes_at :: "(int \<rightharpoonup> pnode) \<Rightarrow> int list \<Rightarrow> error + pnode list" where
  "nodes_at m [] = Inr []"
| "nodes_at m (i # is) =
     (case m i of
        None \<Rightarrow> Inl KeyError
      | Some n \<Rightarrow> (case nodes_at m is of Inl e \<Rightarrow> Inl e | Inr ns \<Rightarrow> Inr (n # ns)))"

text \<open>
  The candidate onsets of a node, one per predecessor: its onset plus its duration.
  \<open>None\<close> when some predecessor has no onset yet.
\<close>

definition onset_proposals :: "pnode list \<Rightarrow> rat list option" where
  "onset_proposals prec_qs =
     those (map (\<lambda>pq. map_option (\<lambda>v. v + duration pq) (onset pq)) prec_qs)"

text \<open>
  The choice among the candidates; \<open>min\<close> of no candidate raises \<open>ValueError\<close>, as does
  a disagreement under the strict policy.
\<close>

definition choose_onset :: "strategy \<Rightarrow> int \<Rightarrow> rat list \<Rightarrow> error + (rat \<times> warning list)" where
  "choose_onset strat q_id proposals =
     (if proposals = [] then Inl ValueError
      else if Min (set proposals) \<noteq> Max (set proposals) then
        (if permissive_desynchronization strat
         then Inr (Max (set proposals), [Not_synchronized q_id])
         else Inl ValueError)
      else Inr (hd proposals, []))"

text \<open>
  One turn of the \<open>while\<close> loop. The test \<open>q in delayed_prec_nodes\<close> looks a node object up
  among the keys of a dictionary whose keys are ids, so it never holds.
\<close>

definition walk_step :: "strategy \<Rightarrow> walk_state \<Rightarrow> error + walk_state flow" where
  "walk_step strat s =
     (let q_id = queue s ! qstart s in
      case p_nodes s q_id of
        None \<Rightarrow> Inl KeyError
      | Some q \<Rightarrow>
          (let s1 = s\<lparr> qstart := qstart s + 1,
                       queue := append_absent (queue s) (p_outlinks q) \<rparr>
           in case onset q of
                Some v \<Rightarrow>
                  if v > 0 then Inr (Break s1)
                  else Inr (Continue (s1\<lparr> table := dict_set (table s1) q_id v \<rparr>))
              | None \<Rightarrow>
                  (case nodes_at (p_nodes s1) (p_inlinks q) of
                     Inl e \<Rightarrow> Inl e
                   | Inr prec_qs \<Rightarrow>
                       (case onset_proposals prec_qs of
                          None \<Rightarrow>
                            (let s2 = s1\<lparr> queue := queue s1 @ [q_id] \<rparr>
                             in if False then Inr (Break s2)
                                else Inr (Continue
                                       (s2\<lparr> delayed_prec_nodes :=
                                              delayed_prec_nodes s2 @ [q_id] \<rparr>)))
                        | Some proposals \<Rightarrow>
                            (case choose_onset strat q_id proposals of
                               Inl e \<Rightarrow> Inl e
                             | Inr (new_onset, ws) \<Rightarrow>
                                 Inr (Continue
                                   (s1\<lparr> p_nodes := (p_nodes s1)
                                            (q_id \<mapsto> q\<lparr> onset := Some new_onset \<rparr>),
                                        table := dict_set (table s1) q_id new_onset,
                                        warnings := warnings s1 @ ws \<rparr>)))))))"

text \<open>
  The loop \<open>while (len(queue) - qstart) > 0\<close>. A cycle among unresolved nodes keeps it
  running, so not returning is the value \<open>None\<close>.
\<close>

partial_function (option) walk :: "strategy \<Rightarrow> walk_state \<Rightarrow> (error + walk_state) option" where
  "walk strat s =
     (if length (queue s) - qstart s > 0 then
        (case walk_step strat s of
           Inl e \<Rightarrow> Some (Inl e)
         | Inr (Break s') \<Rightarrow> Some (Inr s')
         | Inr (Continue s') \<Rightarrow> walk strat s')
      else Some (Inr s))"

text \<open>
  The loop run from a state and the \<open>return\<close> after it: what is returned is the table,
  and with it go the warnings that were logged.
\<close>

definition onsets_from ::
    "strategy \<Rightarrow> walk_state \<Rightarrow> (error + (int, rat) dict \<times> warning list) option" where
  "onsets_from strat s =
     (case walk strat s of
        None \<Rightarrow> None
      | Some (Inl e) \<Rightarrow> Some (Inl e)
      | Some (Inr s') \<Rightarrow> Some (Inr (table s', warnings s')))"

text \<open>
  The precedence graph of \<open>onsets\<close> is the one that \<open>_infer_precedence_from_annotations\<close>
  makes: one \<open>PrecedenceGraphNode\<close> per symbol that takes part, made with the inlinks,
  the outlinks and the duration found for the symbol and with no onset. The list
  \<open>entries\<close> gives these per symbol id, in the order of the dictionary \<open>p_nodes\<close>.
\<close>

definition PrecedenceGraphNode :: "int list \<Rightarrow> int list \<Rightarrow> rat \<Rightarrow> pnode" where
  "PrecedenceGraphNode inlinks' outlinks' duration' =
     \<lparr> p_inlinks = inlinks', p_outlinks = outlinks', onset = None, duration = duration' \<rparr>"

definition precedence_nodes :: "(int \<times> int list \<times> int list \<times> rat) list \<Rightarrow> (int \<times> pnode) list" where
  "precedence_nodes entries =
     map (\<lambda>(i, inlinks', outlinks', duration'). (i, PrecedenceGraphNode inlinks' outlinks' duration'))
       entries"

text \<open>
  \<open>onsets\<close>: the source nodes, those without inlinks, get onset 0 and make up the initial
  queue, in the order of the dictionary.
\<close>

definition seed :: "(int \<times> pnode) list \<Rightarrow> (int \<times> pnode) list" where
  "seed ns = map (\<lambda>(i, n). (i, if p_inlinks n = [] then n\<lparr> onset := Some 0 \<rparr> else n)) ns"

definition initial_state :: "(int \<times> pnode) list \<Rightarrow> walk_state" where
  "initial_state ns =
     \<lparr> queue = map fst (filter (\<lambda>(i, n). p_inlinks n = []) ns),
       qstart = 0,
       delayed_prec_nodes = [],
       p_nodes = map_of (seed ns),
       table = [],
       warnings = [] \<rparr>"

definition onsets ::
    "strategy \<Rightarrow> (int \<times> int list \<times> int list \<times> rat) list
       \<Rightarrow> (error + (int, rat) dict \<times> warning list) option" where
  "onsets strat entries = onsets_from strat (initial_state (precedence_nodes entries))"

text \<open>
  The states in which a walk begun in the state \<open>s0\<close> comes to the test of its loop, the
  loop having gone on after every turn before.
\<close>

inductive visits :: "strategy \<Rightarrow> walk_state \<Rightarrow> walk_state \<Rightarrow> bool"
  for strat :: strategy and s0 :: walk_state where
  start: "visits strat s0 s0"
| turn: "visits strat s0 s \<Longrightarrow> length (queue s) - qstart s > 0 \<Longrightarrow>
         walk_step strat s = Inr (Continue s') \<Longrightarrow> visits strat s0 s'"

text \<open>
  The pending part of the queue holds no id twice, and every node that is pending or has
  never been queued is as it was in the state \<open>s0\<close>.
\<close>

definition as_seeded :: "walk_state \<Rightarrow> walk_state \<Rightarrow> bool" where
  "as_seeded s0 s =
     (qstart s \<le> length (queue s)
      \<and> distinct (drop (qstart s) (queue s))
      \<and> (\<forall>i. i \<in> set (drop (qstart s) (queue s)) \<or> i \<notin> set (queue s) \<longrightarrow>
             p_nodes s i = p_nodes s0 i))"

text \<open>Node \<open>i\<close> has the onset \<open>v\<close>, and the table records it.\<close>

definition settled :: "int \<Rightarrow> rat \<Rightarrow> walk_state \<Rightarrow> bool" where
  "settled i v s =
     (map_of (table s) i = Some v \<and> (\<exists>q. p_nodes s i = Some q \<and> onset q = Some v))"

section \<open>Tie resolution\<close>

text \<open>
  \<open>process_ties\<close> receives its two dictionaries by reference and works on deep copies of
  them. The dictionary objects live in a store, under addresses; a fresh object gets the
  next free address.
\<close>

record heap =
  dicts :: "nat \<rightharpoonup> (int, rat) dict"
  next_free :: nat

definition alloc :: "heap \<Rightarrow> (int, rat) dict \<Rightarrow> heap \<times> nat" where
  "alloc h d = (h\<lparr> dicts := (dicts h)(next_free h \<mapsto> d), next_free := Suc (next_free h) \<rparr>,
                next_free h)"

definition contents :: "heap \<Rightarrow> nat \<Rightarrow> (int, rat) dict" where
  "contents h a = (case dicts h a of None \<Rightarrow> [] | Some d \<Rightarrow> d)"

text \<open>\<open>copy.deepcopy\<close> of a dictionary of numbers: a new dictionary with the same items.\<close>

definition deepcopy :: "heap \<Rightarrow> nat \<Rightarrow> heap \<times> nat" where
  "deepcopy h a = alloc h (contents h a)"

definition store :: "heap \<Rightarrow> nat \<Rightarrow> (int, rat) dict \<Rightarrow> heap" where
  "store h a d = h\<lparr> dicts := (dicts h)(a \<mapsto> d) \<rparr>"

text \<open>\<open>max(xs, key=f)\<close> keeps the first of the largest elements.\<close>

definition max_by :: "('a \<Rightarrow> int) \<Rightarrow> 'a list \<Rightarrow> 'a" where
  "max_by f xs = fold (\<lambda>x best. if f x > f best then x else best) (tl xs) (hd xs)"

text \<open>\<open>__get_tie_notes\<close>: the noteheads a tie hangs from, left to right.\<close>

definition get_tie_notes :: "graph \<Rightarrow> node \<Rightarrow> error + node list" where
  "get_tie_notes g tie =
     (case parents g (node_id tie) (Some [NOTEHEAD_FULL, NOTEHEAD_HALF, NOTEHEAD_WHOLE]) of
        Inl e \<Rightarrow> Inl e
      | Inr notes \<Rightarrow>
          if length notes = 0 then Inl NotationGraphError
          else if length notes = 1 then Inr [hd notes]
          else if length notes > 2 then Inl NotationGraphError
          else Inr (sort_key n_left notes))"

text \<open>
  The merge of the loop body:
  \<open>new_durations[l.id] += new_durations[r.id]; del new_onsets[r.id]\<close>.
  It returns the exception raised, if any, with the store as it is then.
\<close>

definition merge_tie :: "nat \<Rightarrow> nat \<Rightarrow> int \<Rightarrow> int \<Rightarrow> heap \<Rightarrow> error option \<times> heap" where
  "merge_tie new_durations new_onsets l_id r_id h =
     (case dict_get (contents h new_durations) l_id of
        Inl e \<Rightarrow> (Some e, h)
      | Inr dl \<Rightarrow>
          (case dict_get (contents h new_durations) r_id of
             Inl e \<Rightarrow> (Some e, h)
           | Inr dr \<Rightarrow>
               (let h1 = store h new_durations
                           (dict_set (contents h new_durations) l_id (dl + dr))
                in case dict_del (contents h1 new_onsets) r_id of
                     Inl e \<Rightarrow> (Some e, h1)
                   | Inr d \<Rightarrow> (None, store h1 new_onsets d))))"

text \<open>The body of the loop over the keys, for the key \<open>k\<close>.\<close>

definition tie_step :: "graph \<Rightarrow> nat \<Rightarrow> nat \<Rightarrow> int \<Rightarrow> heap \<Rightarrow> error option \<times> heap" where
  "tie_step g new_durations new_onsets k h =
     (case children g k (Some [TIE_CLASS_NAME]) of
        Inl e \<Rightarrow> (Some e, h)
      | Inr ties \<Rightarrow>
          if length ties = 0 then (None, h)
          else
            (let tie = (if length ties > 1 then max_by n_left ties else hd ties) in
             case id_to_node_mapping g k of
               None \<Rightarrow> (Some KeyError, h)
             | Some n \<Rightarrow>
                 (case get_tie_notes g tie of
                    Inl e \<Rightarrow> (Some e, h)
                  | Inr tie_notes \<Rightarrow>
                      if length tie_notes \<noteq> 2 then (None, h)
                      else
                        (let l = tie_notes ! 0; r = tie_notes ! 1 in
                         if node_id l = node_id n
                         then merge_tie new_durations new_onsets (node_id l) (node_id r) h
                         else (None, h)))))"

fun tie_loop :: "graph \<Rightarrow> nat \<Rightarrow> nat \<Rightarrow> int list \<Rightarrow> heap \<Rightarrow> error option \<times> heap" where
  "tie_loop g new_durations new_onsets [] h = (None, h)"
| "tie_loop g new_durations new_onsets (k # ks) h =
     (case tie_step g new_durations new_onsets k h of
        (Some e, h') \<Rightarrow> (Some e, h')
      | (None, h') \<Rightarrow> tie_loop g new_durations new_onsets ks h')"

text \<open>
  \<open>sorted(onsets, key=lambda x: onsets[x], reverse=True)\<close>: the keys by falling onset;
  the sort is stable, also when reversed.
\<close>

definition tie_order :: "(int, rat) dict \<Rightarrow> int list" where
  "tie_order onsets_dict = map fst (sort_key (\<lambda>(k, v). - v) onsets_dict)"

text \<open>\<open>{k: new_durations[k] for k in new_onsets}\<close>\<close>

fun restrict_to :: "(int, rat) dict \<Rightarrow> int list \<Rightarrow> error + (int, rat) dict" where
  "restrict_to d [] = Inr []"
| "restrict_to d (k # ks) =
     (case dict_get d k of
        Inl e \<Rightarrow> Inl e
      | Inr v \<Rightarrow> (case restrict_to d ks of Inl e \<Rightarrow> Inl e | Inr rest \<Rightarrow> Inr ((k, v) # rest)))"

text \<open>
  \<open>process_ties\<close>: the arguments \<open>durations\<close> and \<open>onsets\<close> are addresses; the result is the
  store after the call and either the exception raised or the addresses of the two
  dictionaries returned.
\<close>

definition process_ties ::
    "heap \<Rightarrow> node list \<Rightarrow> nat \<Rightarrow> nat \<Rightarrow> heap \<times> (error + nat \<times> nat)" where
  "process_ties h ns durations onsets_ref =
     (let g = NotationGraph ns;
          (h1, new_onsets) = deepcopy h onsets_ref;
          (h2, new_durations) = deepcopy h1 durations
      in case tie_loop g new_durations new_onsets (tie_order (contents h2 onsets_ref)) h2 of
           (Some e, h3) \<Rightarrow> (h3, Inl e)
         | (None, h3) \<Rightarrow>
             (case restrict_to (contents h3 new_durations)
                     (dict_keys (contents h3 new_onsets)) of
                Inl e \<Rightarrow> (h3, Inl e)
              | Inr d \<Rightarrow> (let (h4, result_durations) = alloc h3 d
                          in (h4, Inr (result_durations, new_onsets)))))"

text \<open>A store is well formed when no object lives at or beyond the next free address.\<close>

definition heap_ok :: "heap \<Rightarrow> bool" where
  "heap_ok h = (\<forall>a. next_free h \<le> a \<longrightarrow> dicts h a = None)"

text \<open>
  The store \<open>h'\<close> agrees with \<open>h\<close> on every address below \<open>b\<close>, has the same next free
  address and has lost no object.
\<close>

definition same_below :: "nat \<Rightarrow> heap \<Rightarrow> heap \<Rightarrow> bool" where
  "same_below b h h' =
     (next_free h' = next_free h
      \<and> (\<forall>a. a < b \<longrightarrow> dicts h' a = dicts h a)
      \<and> (\<forall>a. dicts h a \<noteq> None \<longrightarrow> dicts h' a \<noteq> None))"

section \<open>Duration modifiers\<close>

text \<open>\<open>ClassNamesConstants.Numerals.interpret\<close>: the class names read as decimal digits.\<close>

definition numeral_to_digit :: "string \<Rightarrow> int option" where
  "numeral_to_digit c =
     map_of [(''numeral0'', 0), (''numeral1'', 1), (''numeral2'', 2), (''numeral3'', 3),
             (''numeral4'', 4), (''numeral5'', 5), (''numeral6'', 6), (''numeral7'', 7),
             (''numeral8'', 8), (''numeral9'', 9)] c"

fun interpret_from :: "int \<Rightarrow> string list \<Rightarrow> int option" where
  "interpret_from result [] = Some result"
| "interpret_from result (name # rest) =
     (case numeral_to_digit name of
        None \<Rightarrow> None
      | Some current_num \<Rightarrow> interpret_from (result * 10 + current_num) rest)"

definition Numerals_interpret :: "string list \<Rightarrow> int option" where
  "Numerals_interpret numeral_list = (if numeral_list = [] then None else interpret_from 0 numeral_list)"

text \<open>\<open>interpret_numerals\<close>: \<open>sorted\<close> is stable, as \<open>sort_key\<close> is.\<close>

definition interpret_numerals :: "node list \<Rightarrow> error + int option" where
  "interpret_numerals numerals =
     (if list_ex (\<lambda>n. class_name n \<notin> set NUMERALS) numerals then Inl ValueError
      else Inr (Numerals_interpret (map class_name (sort_key n_left numerals))))"








section \<open>Time signatures\<close>

text \<open>
  \<open>bounding_box_dice_coefficient\<close> is defined in \<open>mung.node\<close>; it enters as the parameter
  \<open>dice\<close>. The pairs compared are \<open>members[i]\<close> with every \<open>members[i:]\<close>, for \<open>i\<close> over
  all but the last member.
\<close>

definition vertical_overlaps :: "(node \<Rightarrow> node \<Rightarrow> rat) \<Rightarrow> node list \<Rightarrow> rat list" where
  "vertical_overlaps dice members =
     concat (map (\<lambda>i. map (dice (members ! i)) (drop i members)) [0..<length members - 1])"

text \<open>
  Whether the signature reads as a fraction. The threshold parameter is \<open>None\<close> unless the
  caller passes one, and the comparison \<open>min(vertical_overlaps) < None\<close> raises \<open>TypeError\<close>.
\<close>

definition is_fraction_like ::
    "(node \<Rightarrow> node \<Rightarrow> rat) \<Rightarrow> node list \<Rightarrow> rat option \<Rightarrow> error + bool" where
  "is_fraction_like dice members fractional_vertical_iou_threshold =
     (if list_ex (\<lambda>m. class_name m = LETTER_OTHER) members then Inr True
      else if length members < 2 then Inr False
      else
        (case fractional_vertical_iou_threshold of
           None \<Rightarrow> Inl TypeError
         | Some threshold \<Rightarrow>
             Inr (Min (set (vertical_overlaps dice members)) < threshold)))"

definition v_centre :: "node \<Rightarrow> rat" where
  "v_centre c = of_int (n_top c + n_bottom c) / 2"

text \<open>The index after the first largest gap; \<open>max\<close> of an empty range raises \<open>ValueError\<close>.\<close>

definition largest_gap_idx :: "rat list \<Rightarrow> error + nat" where
  "largest_gap_idx gaps =
     (if gaps = [] then Inl ValueError
      else Inr (length (takeWhile (\<lambda>x. x \<noteq> Max (set gaps)) gaps) + 1))"

definition fractional_beats :: "node list \<Rightarrow> error + rat" where
  "fractional_beats numerals =
     (let numerals_topdown = sort_key v_centre numerals;
          gaps = map (\<lambda>(c1, c2). of_int (n_bottom c2 + n_top c2) / 2
                                  - of_int (n_bottom c1 + n_top c2) / 2)
                   (zip (butlast numerals_topdown) (tl numerals_topdown))
      in (case largest_gap_idx gaps of
            Inl e \<Rightarrow> Inl e
          | Inr idx \<Rightarrow>
              (case interpret_numerals (take idx numerals) of
                 Inl e \<Rightarrow> Inl e
               | Inr None \<Rightarrow> Inl TypeError
               | Inr (Some beat_count) \<Rightarrow>
                   (case interpret_numerals (drop idx numerals) of
                      Inl e \<Rightarrow> Inl e
                    | Inr None \<Rightarrow> Inr (of_int (beat_count * 4))
                    | Inr (Some beat_units) \<Rightarrow>
                        if beat_units = 0 then Inl ZeroDivisionError
                        else Inr (of_int (beat_count * 4) / of_int beat_units)))))"

definition interpret_time_signature ::
    "(node \<Rightarrow> node \<Rightarrow> rat) \<Rightarrow> graph option \<Rightarrow> node \<Rightarrow> rat option \<Rightarrow> error + rat" where
  "interpret_time_signature dice graph time_signature fractional_vertical_iou_threshold =
     (case graph of
        None \<Rightarrow> Inl ValueError
      | Some g \<Rightarrow>
          (case children g (node_id time_signature) (Some TIME_SIGNATURE_MEMBERS) of
             Inl e \<Rightarrow> Inl e
           | Inr ms \<Rightarrow>
               (let members = sort_key n_top ms in
                if members = [] then Inl NotationGraphError
                else if list_ex (\<lambda>m. class_name m = TIME_SIG_COMMON
                                      \<or> class_name m = TIME_SIG_CUT_COMMON) members
                then Inr 4
                else
                  (case is_fraction_like dice members fractional_vertical_iou_threshold of
                     Inl e \<Rightarrow> Inl e
                   | Inr fraction_like \<Rightarrow>
                       (case children g (node_id time_signature) (Some NUMERALS) of
                          Inl e \<Rightarrow> Inl e
                        | Inr ns \<Rightarrow>
                            (let numerals = sort_key n_top ns in
                             if \<not> fraction_like then
                               (if numerals = [] then Inl NotationGraphError
                                else
                                  (case interpret_numerals numerals of
                                     Inl e \<Rightarrow> Inl e
                                   | Inr None \<Rightarrow> Inl TypeError
                                   | Inr (Some beats) \<Rightarrow> Inr (of_int beats)))
                             else fractional_beats numerals))))))"

section \<open>Example symbols, graphs and states\<close>

text \<open>A plain symbol for examples: class name, id and link lists; a unit box.\<close>

definition sym :: "int \<Rightarrow> string \<Rightarrow> int list \<Rightarrow> int list \<Rightarrow> node" where
  "sym i c il ol =
     \<lparr> node_id = i, class_name = c, n_top = 0, n_left = 0, n_bottom = 1, n_right = 1,
       inlinks = il, outlinks = ol,
       precedence_inlinks = None, precedence_outlinks = None \<rparr>"

text \<open>A symbol with a bounding box, for examples.\<close>

definition boxed :: "int \<Rightarrow> string \<Rightarrow> int \<Rightarrow> int \<Rightarrow> int \<Rightarrow> int \<Rightarrow> int list \<Rightarrow> int list \<Rightarrow> node" where
  "boxed i c t l b r il ol =
     \<lparr> node_id = i, class_name = c, n_top = t, n_left = l, n_bottom = b, n_right = r,
       inlinks = il, outlinks = ol,
       precedence_inlinks = None, precedence_outlinks = None \<rparr>"

text \<open>A precedence node for examples: inlinks, outlinks, onset, duration.\<close>

definition pn :: "int list \<Rightarrow> int list \<Rightarrow> rat option \<Rightarrow> rat \<Rightarrow> pnode" where
  "pn il ol v d = \<lparr> p_inlinks = il, p_outlinks = ol, onset = v, duration = d \<rparr>"

text \<open>A symbol with precedence links, and a precedence chain of three noteheads.\<close>

definition linked :: "int \<Rightarrow> string \<Rightarrow> int list \<Rightarrow> int list \<Rightarrow> node" where
  "linked i c pil pol =
     \<lparr> node_id = i, class_name = c, n_top = 0, n_left = 0, n_bottom = 1, n_right = 1,
       inlinks = [], outlinks = [],
       precedence_inlinks = Some pil, precedence_outlinks = Some pol \<rparr>"

definition chain3 :: graph where
  "chain3 = NotationGraph
     [linked 1 ''noteheadFull'' [] [2], linked 2 ''noteheadFull'' [1] [3],
      linked 3 ''noteheadFull'' [2] []]"

text \<open>
  Two quarter notes joined by a tie, their duration and onset tables at addresses 0 and
  1, and the store once \<open>process_ties\<close> has copied the tables to addresses 2 and 3.
\<close>

definition tied_pair :: "node list" where
  "tied_pair =
     [boxed 1 ''noteheadFull'' 0 0 10 10 [] [3], boxed 2 ''noteheadFull'' 0 40 10 50 [] [3],
      boxed 3 ''tie'' 12 5 16 45 [1, 2] []]"

definition two_tables :: heap where
  "two_tables = \<lparr> dicts = [0 \<mapsto> [(1, 1), (2, 1)], 1 \<mapsto> [(1, 0), (2, 1)]], next_free = 2 \<rparr>"

definition copied_tables :: heap where
  "copied_tables =
     \<lparr> dicts = [0 \<mapsto> [(1, 1), (2, 1)], 1 \<mapsto> [(1, 0), (2, 1)],
                2 \<mapsto> [(1, 0), (2, 1)], 3 \<mapsto> [(1, 1), (2, 1)]],
       next_free = 4 \<rparr>"

text \<open>
  A walk about to dequeue node 3, whose predecessors 1 and 2 have onset 0 and the
  durations 1 and 3.
\<close>

definition converging :: walk_state where
  "converging =
     \<lparr> queue = [1, 2, 3], qstart = 2, delayed_prec_nodes = [],
       p_nodes = map_of [(1, pn [] [3] (Some 0) 1), (2, pn [] [3] (Some 0) 3),
                         (3, pn [1, 2] [] None 1)],
       table = [(1, 0), (2, 0)], warnings = [] \<rparr>"

text \<open>The precedence graph whose walk comes to this state.\<close>

definition converging_entries :: "(int \<times> int list \<times> int list \<times> rat) list" where
  "converging_entries = [(1, [], [3], 1), (2, [], [3], 3), (3, [1, 2], [], 1)]"

text \<open>Node 1 lists node 2 twice among its outlinks.\<close>

definition g_dup :: graph where
  "g_dup = NotationGraph [sym 1 ''stem'' [] [2, 2], sym 2 ''beam'' [1] []]"

text \<open>
  Three graphs with reciprocal precedence links: a node that precedes itself; a node that
  lists its one predecessor twice; a node whose predecessor 9 is no node of the graph.
\<close>

definition g_self :: graph where
  "g_self = NotationGraph [linked 1 ''noteheadFull'' [1] [1]]"

definition g_twice :: graph where
  "g_twice = NotationGraph
     [linked 1 ''noteheadFull'' [] [2], linked 2 ''noteheadFull'' [1, 1] []]"

definition g_dangling :: graph where
  "g_dangling = NotationGraph [linked 1 ''noteheadFull'' [9] []]"

section \<open>Pitch of the centre line under a G-clef\<close>

lemma g_clef_state:
  assumes "class_name clef = G_CLEF"
  shows "init_base_pitch_default_staffline PitchInferenceEngineState (Some clef) =
           Inr (PitchInferenceEngineState
                  \<lparr> base_pitch := Some 71, base_pitch_step := Some 6,
                    base_pitch_octave := Some 4, current_clef := Some clef,
                    current_delta_steps := Some [0, 1, 2, 2, 1, 2, 2, 2] \<rparr>)"
  using assms
  by (simp add: init_base_pitch_default_staffline_def clef_tables_def shift_accidentals_def
      PitchInferenceEngineState_def)

text \<open>
  Claim C9. With the state initialised for a G-clef in default position, no key signature
  and no inline accidentals, \<open>pitch 0\<close> is 71. Once a sharp is registered in the key map
  for the diatonic step class of delta 0, \<open>pitch 0\<close> is 72; \<open>set_key\<close> registers that sharp
  as the seventh of the G-clef order.
\<close>

theorem pitch_centre_line_g_clef:
  assumes "class_name clef = G_CLEF"
  shows "\<exists>s. init_base_pitch_default_staffline PitchInferenceEngineState (Some clef) = Inr s
           \<and> key_accidentals s = [] \<and> inline_accidentals s = []
           \<and> current_clef_delta_shift s = 0
           \<and> pitch s 0 = Inr 71
           \<and> pitch (s\<lparr> key_accidentals := dict_set (key_accidentals s) (0 mod 7) ''sharp'' \<rparr>) 0
               = Inr 72
           \<and> (\<exists>s'. set_key s 7 0 = Inr s'
                  \<and> map_of (key_accidentals s') 0 = Some ''sharp''
                  \<and> pitch s' 0 = Inr 72)"
  unfolding g_clef_state [OF assms]
  using assms
  by (simp add: PitchInferenceEngineState_def pitch_def accidental_def slice_to_def
      dict_set_def set_key_def key_deltas_def)

theorem pitch_centre_line_g_clef_witness:
  "\<exists>s. init_base_pitch_default_staffline PitchInferenceEngineState
          (Some \<lparr> node_id = 1, class_name = ''gClef'', n_top = 0, n_left = 0, n_bottom = 10,
                  n_right = 10, inlinks = [], outlinks = [2], precedence_inlinks = None,
                  precedence_outlinks = None \<rparr>) = Inr s
      \<and> pitch s 0 = Inr 71"
  using pitch_centre_line_g_clef
    [of "\<lparr> node_id = 1, class_name = ''gClef'', n_top = 0, n_left = 0, n_bottom = 10,
           n_right = 10, inlinks = [], outlinks = [2], precedence_inlinks = None,
           precedence_outlinks = None \<rparr>"]
  by (auto simp: G_CLEF_def)

section \<open>Descendants and ancestors on small graphs\<close>

lemma descendants_raises_on_child:
  assumes "children g i cf = Inr (c # cs)"
  shows "descendants g i cf = Some (Inl TypeError)"
  using assms
  by (simp add: descendants_def finish_closure_def closure_loop.simps Queue_contains_def)

lemma descendants_of_leaf:
  assumes "children g i cf = Inr []"
  shows "descendants g i cf = Some (Inr [])"
  using assms
  by (simp add: descendants_def finish_closure_def closure_loop.simps)

text \<open>
  Claim C2, at a graph of two nodes with the one edge \<open>1 \<rightarrow> 2\<close>: \<open>descendants\<close> of node 1
  raises \<open>TypeError\<close> where the claim has it return node 2, while \<open>ancestors\<close> of node 2
  returns node 1.
\<close>

theorem descendants_single_edge_raises:
  "descendants (NotationGraph [sym 1 ''stem'' [] [2], sym 2 ''beam'' [1] []]) 1 None
     = Some (Inl TypeError)
   \<and> ancestors (NotationGraph [sym 1 ''stem'' [] [2], sym 2 ''beam'' [1] []]) 2 None
     = Some (Inr [sym 1 ''stem'' [] [2]])"
  by (simp add: descendants_def ancestors_def finish_closure_def closure_loop.simps
      Queue_contains_def deque_contains_def children_def parents_def neighbours_def
      NotationGraph_def sym_def passes_def List.map_filter_def)

text \<open>
  \<open>ancestors\<close> de-duplicates against the pending queue only: a node reached again after it
  was dequeued is listed twice. Here 4 has parents 2 and 3, 2 has parent 1, 3 has parent 5
  and 5 has parent 1.
\<close>

lemma ancestors_lists_node_twice:
  "ancestors (NotationGraph
      [sym 1 ''a'' [] [2, 5], sym 2 ''a'' [1] [4], sym 3 ''a'' [5] [4],
       sym 4 ''a'' [2, 3] [], sym 5 ''a'' [1] [3]]) 4 None
     = Some (Inr [sym 2 ''a'' [1] [4], sym 3 ''a'' [5] [4], sym 1 ''a'' [] [2, 5],
                  sym 5 ''a'' [1] [3], sym 1 ''a'' [] [2, 5]])"
  by (simp add: ancestors_def finish_closure_def closure_loop.simps
      deque_contains_def parents_def neighbours_def
      NotationGraph_def sym_def passes_def List.map_filter_def)

section \<open>Tuple and dot modifiers\<close>

lemma neighbours_pass:
  "n \<in> set (neighbours g cf ids) \<Longrightarrow> passes cf n"
  by (auto simp: neighbours_def List.map_filter_def split: option.splits if_splits)

lemma children_pass:
  "children g i (Some cs) = Inr ns \<Longrightarrow> n \<in> set ns \<Longrightarrow> class_name n \<in> set cs"
  using neighbours_pass [of n g "Some cs"]
  by (auto simp: children_def passes_def split: option.splits)

lemma sort_key_Nil_iff: "sort_key f xs = [] \<longleftrightarrow> xs = []"
  using length_sort [of f xs] by (metis length_0_conv)


lemma list_ex_sort_key: "list_ex P (sort_key f xs) = list_ex P xs"
  by (simp add: list_ex_iff)













section \<open>Time signatures without a threshold\<close>

lemma members_have_no_separator:
  assumes "children g i (Some TIME_SIGNATURE_MEMBERS) = Inr ms"
  shows "\<not> list_ex (\<lambda>m. class_name m = LETTER_OTHER) (sort_key n_top ms)"
proof -
  have no: "LETTER_OTHER \<notin> set TIME_SIGNATURE_MEMBERS"
    by (simp add: TIME_SIGNATURE_MEMBERS_def LETTER_OTHER_def NUMERALS_def
        TIME_SIG_COMMON_def TIME_SIG_CUT_COMMON_def)
  show ?thesis
  proof (rule notI)
    assume "list_ex (\<lambda>m. class_name m = LETTER_OTHER) (sort_key n_top ms)"
    then obtain m where "m \<in> set ms" "class_name m = LETTER_OTHER"
      by (auto simp: list_ex_iff)
    with children_pass [OF assms] no
    show False by metis
  qed
qed

lemma interpret_time_signature_without_threshold:
  assumes "children g (node_id ts) (Some TIME_SIGNATURE_MEMBERS) = Inr ms"
      and "2 \<le> length ms"
      and "\<not> list_ex (\<lambda>m. class_name m = TIME_SIG_COMMON
                            \<or> class_name m = TIME_SIG_CUT_COMMON) ms"
  shows "interpret_time_signature dice (Some g) ts None = Inl TypeError"
proof -
  have ne: "sort_key n_top ms \<noteq> []"
    using assms(2) by (auto simp: sort_key_Nil_iff)
  have len: "\<not> length (sort_key n_top ms) < 2"
    using assms(2) by simp
  show ?thesis
    using assms(1,3) ne len members_have_no_separator [OF assms(1)]
    by (simp add: interpret_time_signature_def is_fraction_like_def list_ex_sort_key Let_def)
qed

text \<open>
  Claim C3, at a signature of two numerals 4, one above the other, interpreted without a
  threshold argument: the claim has it classified against the default 0.8; the code
  compares the minimum overlap with \<open>None\<close> and raises \<open>TypeError\<close>, whatever the overlaps.
\<close>

theorem four_four_without_threshold_raises:
  "interpret_time_signature dice
     (Some (NotationGraph
        [boxed 1 ''timeSignature'' 0 0 22 10 [] [2, 3],
         boxed 2 ''numeral4'' 0 0 10 10 [1] [],
         boxed 3 ''numeral4'' 12 0 22 10 [1] []]))
     (boxed 1 ''timeSignature'' 0 0 22 10 [] [2, 3]) None = Inl TypeError"
  by (rule interpret_time_signature_without_threshold
        [where ms = "[boxed 2 ''numeral4'' 0 0 10 10 [1] [], boxed 3 ''numeral4'' 12 0 22 10 [1] []]"])
     (simp_all add: children_def neighbours_def NotationGraph_def boxed_def passes_def
        List.map_filter_def TIME_SIGNATURE_MEMBERS_def NUMERALS_def TIME_SIG_COMMON_def
        TIME_SIG_CUT_COMMON_def)

text \<open>With the threshold passed the same signature reads as 4/4, four beats.\<close>

lemma four_four_with_threshold:
  "interpret_time_signature (\<lambda>a b. if node_id a = node_id b then 1 else 0)
     (Some (NotationGraph
        [boxed 1 ''timeSignature'' 0 0 22 10 [] [2, 3],
         boxed 2 ''numeral4'' 0 0 10 10 [1] [],
         boxed 3 ''numeral4'' 12 0 22 10 [1] []]))
     (boxed 1 ''timeSignature'' 0 0 22 10 [] [2, 3]) (Some (8 / 10)) = Inr 4"
  by code_simp

text \<open>
  A separator glyph is not among the members the signature is asked for, so a signature
  of a numeral 3 and a separator reads as three whole beats.
\<close>

lemma separator_glyph_is_not_seen:
  "interpret_time_signature dice
     (Some (NotationGraph
        [boxed 1 ''timeSignature'' 0 0 22 10 [] [2, 3],
         boxed 2 ''numeral3'' 0 0 10 10 [1] [],
         boxed 3 ''characterOther'' 12 0 22 10 [1] []]))
     (boxed 1 ''timeSignature'' 0 0 22 10 [] [2, 3]) None = Inr 3"
  by (simp add: interpret_time_signature_def is_fraction_like_def
        interpret_numerals_def Numerals_interpret_def numeral_to_digit_def
        children_def neighbours_def NotationGraph_def boxed_def passes_def
        List.map_filter_def TIME_SIGNATURE_MEMBERS_def NUMERALS_def TIME_SIG_COMMON_def
        TIME_SIG_CUT_COMMON_def LETTER_OTHER_def)


section \<open>Edge reciprocity under the mutators\<close>

lemma in_graph_modify [simp]: "in_graph (modify g i f) j = in_graph g j"
  by (simp add: in_graph_def modify_def split: option.splits)

lemma in_graph_set [simp]:
  "in_graph (set_outs g i xs) j = in_graph g j"
  "in_graph (set_ins g i xs) j = in_graph g j"
  "in_graph (set_p_outs g i xs) j = in_graph g j"
  "in_graph (set_p_ins g i xs) j = in_graph g j"
  by (simp_all add: set_outs_def set_ins_def set_p_outs_def set_p_ins_def)

lemma get_set_outs [simp]:
  "outs (set_outs g i xs) j = (if j = i \<and> in_graph g i then xs else outs g j)"
  "ins (set_outs g i xs) j = ins g j"
  "p_outs (set_outs g i xs) j = p_outs g j"
  "p_ins (set_outs g i xs) j = p_ins g j"
  "has_p_outs (set_outs g i xs) j = has_p_outs g j"
  "has_p_ins (set_outs g i xs) j = has_p_ins g j"
  by (auto simp: set_outs_def modify_def outs_def ins_def p_outs_def p_ins_def
      has_p_outs_def has_p_ins_def in_graph_def split: option.splits)

lemma get_set_ins [simp]:
  "ins (set_ins g i xs) j = (if j = i \<and> in_graph g i then xs else ins g j)"
  "outs (set_ins g i xs) j = outs g j"
  "p_outs (set_ins g i xs) j = p_outs g j"
  "p_ins (set_ins g i xs) j = p_ins g j"
  "has_p_outs (set_ins g i xs) j = has_p_outs g j"
  "has_p_ins (set_ins g i xs) j = has_p_ins g j"
  by (auto simp: set_ins_def modify_def outs_def ins_def p_outs_def p_ins_def
      has_p_outs_def has_p_ins_def in_graph_def split: option.splits)

lemma get_set_p_outs [simp]:
  "p_outs (set_p_outs g i xs) j = (if j = i \<and> in_graph g i then xs else p_outs g j)"
  "p_ins (set_p_outs g i xs) j = p_ins g j"
  "outs (set_p_outs g i xs) j = outs g j"
  "ins (set_p_outs g i xs) j = ins g j"
  "has_p_outs (set_p_outs g i xs) j = (if j = i \<and> in_graph g i then True else has_p_outs g j)"
  "has_p_ins (set_p_outs g i xs) j = has_p_ins g j"
  by (auto simp: set_p_outs_def modify_def outs_def ins_def p_outs_def p_ins_def
      has_p_outs_def has_p_ins_def in_graph_def split: option.splits)

lemma get_set_p_ins [simp]:
  "p_ins (set_p_ins g i xs) j = (if j = i \<and> in_graph g i then xs else p_ins g j)"
  "p_outs (set_p_ins g i xs) j = p_outs g j"
  "outs (set_p_ins g i xs) j = outs g j"
  "ins (set_p_ins g i xs) j = ins g j"
  "has_p_ins (set_p_ins g i xs) j = (if j = i \<and> in_graph g i then True else has_p_ins g j)"
  "has_p_outs (set_p_ins g i xs) j = has_p_outs g j"
  by (auto simp: set_p_ins_def modify_def outs_def ins_def p_outs_def p_ins_def
      has_p_outs_def has_p_ins_def in_graph_def split: option.splits)

lemma for_each_preserves:
  assumes "\<And>x h. P h \<Longrightarrow> P (snd (body x h))" and "P g"
  shows "P (snd (for_each body xs g))"
  using assms(2)
proof (induction xs arbitrary: g)
  case Nil
  then show ?case by simp
next
  case (Cons x xs)
  obtain e h where b: "body x g = (e, h)" by (cases "body x g")
  have "P h" using assms(1) [OF Cons.prems, of x] b by simp
  then show ?case using Cons.IH [of h] b by (cases e) auto
qed

lemma add_edge_consistent: "consistent g \<Longrightarrow> consistent (snd (add_edge g a b))"
  unfolding consistent_def reciprocal_def precedence_reciprocal_def links_distinct_def
  by (auto simp: add_edge_def Let_def)

lemma remove_edge_consistent: "consistent g \<Longrightarrow> consistent (snd (remove_edge g a b s))"
  unfolding consistent_def reciprocal_def precedence_reciprocal_def links_distinct_def
  by (auto simp: remove_edge_def Let_def)

lemma add_precedence_edge_consistent:
  "consistent g \<Longrightarrow> consistent (snd (add_precedence_edge g a b))"
  unfolding consistent_def reciprocal_def precedence_reciprocal_def links_distinct_def
  by (auto simp: add_precedence_edge_def Let_def)

lemma remove_precedence_edge_consistent:
  "consistent g \<Longrightarrow> consistent (snd (remove_precedence_edge g a b s))"
  unfolding consistent_def reciprocal_def precedence_reciprocal_def links_distinct_def
  by (auto simp: remove_precedence_edge_def Let_def)


lemma remove_edges_for_vertex_consistent:
  assumes "consistent g"
  shows "consistent (snd (remove_edges_for_vertex g a))"
proof (cases "in_graph g a")
  case False
  then show ?thesis using assms by (simp add: remove_edges_for_vertex_def)
next
  case True
  let ?r1 = "for_each (\<lambda>inlink h. remove_edge h inlink a False) (ins g a) g"
  have c1: "consistent (snd ?r1)"
    by (rule for_each_preserves) (auto intro: remove_edge_consistent assms)
  obtain e g1 where r1: "?r1 = (e, g1)" by (cases ?r1)
  have c2: "consistent
              (snd (for_each (\<lambda>outlink h. remove_edge h a outlink False) (outs g1 a) g1))"
    by (rule for_each_preserves) (use c1 r1 in \<open>auto intro: remove_edge_consistent\<close>)
  show ?thesis
    using True c1 c2 r1 by (cases e) (simp_all add: remove_edges_for_vertex_def)
qed

lemma drop_node_consistent:
  assumes "consistent g"
  shows "consistent (g\<lparr> nodes := ns,
                        id_to_node_mapping := (id_to_node_mapping g)(a := None) \<rparr>)"
  using assms
  unfolding consistent_def reciprocal_def precedence_reciprocal_def links_distinct_def
  by (auto simp: in_graph_def outs_def ins_def p_outs_def p_ins_def split: if_splits)

lemma remove_vertex_consistent:
  assumes "consistent g"
  shows "consistent (snd (remove_vertex g a))"
proof -
  obtain e g1 where r: "remove_edges_for_vertex g a = (e, g1)"
    by (cases "remove_edges_for_vertex g a")
  have "consistent g1"
    using remove_edges_for_vertex_consistent [OF assms, of a] r by simp
  then show ?thesis
    using r drop_node_consistent [of g1] by (cases e) (simp_all add: remove_vertex_def)
qed

lemma unlink_predecessor_consistent:
  "consistent g \<Longrightarrow> consistent (snd (unlink_predecessor x p g))"
  unfolding consistent_def reciprocal_def precedence_reciprocal_def links_distinct_def
  by (auto simp: unlink_predecessor_def Let_def)

lemma unlink_descendant_consistent:
  "consistent g \<Longrightarrow> consistent (snd (unlink_descendant x d g))"
  unfolding consistent_def reciprocal_def precedence_reciprocal_def links_distinct_def
  by (auto simp: unlink_descendant_def Let_def)


lemma for_each_preserves_in:
  assumes "\<And>x h. x \<in> set xs \<Longrightarrow> P h \<Longrightarrow> P (snd (body x h))" and "P g"
  shows "P (snd (for_each body xs g))"
  using assms
proof (induction xs arbitrary: g)
  case Nil
  then show ?case by simp
next
  case (Cons x xs)
  obtain e h where b: "body x g = (e, h)" by (cases "body x g")
  have "P h" using Cons.prems(1) [of x g] Cons.prems(2) b by simp
  then have "P (snd (for_each body xs h))"
    using Cons.IH [of h] Cons.prems(1) by simp
  then show ?case using b \<open>P h\<close> by (cases e) auto
qed

lemma for_each_None_persists:
  assumes "for_each body ys h = (None, g')"
      and "\<And>y k k'. R k \<Longrightarrow> body y k = (None, k') \<Longrightarrow> R k'"
      and "R h"
  shows "R g'"
  using assms(1,3)
proof (induction ys arbitrary: h)
  case Nil
  then show ?case by simp
next
  case (Cons y ys)
  obtain e k where b: "body y h = (e, k)" by (cases "body y h")
  with Cons.prems(1) have e: "e = None" and rest: "for_each body ys k = (None, g')"
    by (cases e; simp)+
  have "R k" using assms(2) [OF Cons.prems(2)] b e by simp
  then show ?case using Cons.IH [OF rest] by simp
qed

lemma for_each_None_all:
  assumes "for_each body xs g = (None, g')"
      and "\<And>x h h'. body x h = (None, h') \<Longrightarrow> R x h'"
      and "\<And>x y k k'. R x k \<Longrightarrow> body y k = (None, k') \<Longrightarrow> R x k'"
  shows "\<forall>x \<in> set xs. R x g'"
  using assms(1)
proof (induction xs arbitrary: g)
  case Nil
  then show ?case by simp
next
  case (Cons x xs)
  obtain e h where b: "body x g = (e, h)" by (cases "body x g")
  with Cons.prems have e: "e = None" and rest: "for_each body xs h = (None, g')"
    by (cases e; simp)+
  have "R x h" using assms(2) b e by simp
  then have "R x g'"
    using for_each_None_persists [OF rest, of "R x"] assms(3) by blast
  then show ?case using Cons.IH [OF rest] by simp
qed

lemma unlink_predecessor_ok:
  "unlink_predecessor x p g = (None, h) \<Longrightarrow> in_graph h p \<and> has_p_outs h p"
  by (auto simp: unlink_predecessor_def Let_def split: if_splits)

lemma unlink_predecessor_keeps:
  "in_graph g q \<and> has_p_outs g q \<Longrightarrow>
   in_graph (snd (unlink_predecessor x p g)) q \<and> has_p_outs (snd (unlink_predecessor x p g)) q"
  by (auto simp: unlink_predecessor_def Let_def split: if_splits)

lemma unlink_descendant_ok:
  "unlink_descendant x d g = (None, h) \<Longrightarrow> in_graph h d \<and> has_p_ins h d"
  by (auto simp: unlink_descendant_def Let_def split: if_splits)

lemma unlink_descendant_keeps:
  "in_graph g q \<and> has_p_ins g q \<Longrightarrow>
   in_graph (snd (unlink_descendant x d g)) q \<and> has_p_ins (snd (unlink_descendant x d g)) q"
  "in_graph g q \<and> has_p_outs g q \<Longrightarrow>
   in_graph (snd (unlink_descendant x d g)) q \<and> has_p_outs (snd (unlink_descendant x d g)) q"
  by (auto simp: unlink_descendant_def Let_def split: if_splits)

lemma bridge_keeps:
  "bridge_ready ps ds g \<Longrightarrow> bridge_ready ps ds (snd (bridge p d g))"
  by (auto simp: bridge_ready_def bridge_def Let_def)

lemma bridge_consistent:
  "in_graph g p \<Longrightarrow> has_p_ins g d \<Longrightarrow> consistent g \<Longrightarrow> consistent (snd (bridge p d g))"
  unfolding consistent_def reciprocal_def precedence_reciprocal_def links_distinct_def
  by (auto simp: bridge_def Let_def)

lemma bridge_all_keeps:
  assumes "p \<in> set ps" and "consistent g \<and> bridge_ready ps ds g"
  shows "consistent (snd (bridge_all ds p g)) \<and> bridge_ready ps ds (snd (bridge_all ds p g))"
proof -
  have ing: "in_graph g p" using assms by (auto simp: bridge_ready_def)
  have "consistent (snd (for_each (bridge p) ds g))
        \<and> bridge_ready ps ds (snd (for_each (bridge p) ds g))"
  proof (rule for_each_preserves_in
           [where P = "\<lambda>h. consistent h \<and> bridge_ready ps ds h"])
    fix d h
    assume d: "d \<in> set ds" and h: "consistent h \<and> bridge_ready ps ds h"
    then have "in_graph h p" "has_p_ins h d"
      using assms(1) by (auto simp: bridge_ready_def)
    then show "consistent (snd (bridge p d h)) \<and> bridge_ready ps ds (snd (bridge p d h))"
      using h bridge_consistent bridge_keeps by blast
  qed (rule assms(2))
  then show ?thesis using ing by (simp add: bridge_all_def)
qed

lemma remove_from_precedence_consistent:
  assumes "consistent g"
  shows "consistent (snd (remove_from_precedence g a))"
proof (cases "in_graph g a \<and> \<not> (p_ins g a = [] \<and> p_outs g a = [])")
  case False
  then show ?thesis using assms by (auto simp: remove_from_precedence_def Let_def)
next
  case True
  let ?ps = "p_ins g a" and ?ds = "p_outs g a"
  obtain e1 g1 where r1: "for_each (unlink_predecessor a) ?ps g = (e1, g1)"
    by (cases "for_each (unlink_predecessor a) ?ps g")
  have c1: "consistent g1"
    using for_each_preserves [of consistent "unlink_predecessor a" g ?ps]
      unlink_predecessor_consistent assms r1 by simp
  show ?thesis
  proof (cases e1)
    case (Some e)
    then show ?thesis using True r1 c1 by (auto simp: remove_from_precedence_def Let_def)
  next
    case None
    have p1: "\<forall>p \<in> set ?ps. in_graph g1 p \<and> has_p_outs g1 p"
      by (rule for_each_None_all [where body = "unlink_predecessor a" and g = g])
         (use r1 None unlink_predecessor_ok unlink_predecessor_keeps in \<open>auto, (metis snd_conv)+\<close>)
    obtain e2 g2 where r2: "for_each (unlink_descendant a) ?ds g1 = (e2, g2)"
      by (cases "for_each (unlink_descendant a) ?ds g1")
    have c2: "consistent g2"
      using for_each_preserves [of consistent "unlink_descendant a" g1 ?ds]
        unlink_descendant_consistent c1 r2 by simp
    show ?thesis
    proof (cases e2)
      case (Some e)
      then show ?thesis using True r1 None r2 c2 by (auto simp: remove_from_precedence_def Let_def)
    next
      case n2: None
      have p2: "\<forall>p \<in> set ?ps. in_graph g2 p \<and> has_p_outs g2 p"
        using for_each_preserves
          [of "\<lambda>h. \<forall>p \<in> set ?ps. in_graph h p \<and> has_p_outs h p" "unlink_descendant a" g1 ?ds]
          unlink_descendant_keeps(2) p1 r2 by simp
      have d2: "\<forall>d \<in> set ?ds. in_graph g2 d \<and> has_p_ins g2 d"
        by (rule for_each_None_all [where body = "unlink_descendant a" and g = g1])
           (use r2 n2 unlink_descendant_ok unlink_descendant_keeps(1) in \<open>auto, (metis snd_conv)+\<close>)
      have "consistent (snd (for_each (bridge_all ?ds) ?ps g2))
            \<and> bridge_ready ?ps ?ds (snd (for_each (bridge_all ?ds) ?ps g2))"
        by (rule for_each_preserves_in
              [where P = "\<lambda>h. consistent h \<and> bridge_ready ?ps ?ds h"])
           (use c2 p2 d2 bridge_all_keeps in \<open>auto simp: bridge_ready_def\<close>)
      then show ?thesis
        using True r1 None r2 n2 by (auto simp: remove_from_precedence_def Let_def)
    qed
  qed
qed


lemma reachable_consistent:
  assumes "reachable g0 g" and "consistent g0"
  shows "consistent g"
  using assms
  by (induction rule: reachable.induct)
     (simp_all add: add_edge_consistent remove_edge_consistent remove_vertex_consistent
        remove_edges_for_vertex_consistent add_precedence_edge_consistent
        remove_precedence_edge_consistent remove_from_precedence_consistent)

text \<open>
  Claim C4, amended. From an initial graph that is reciprocal in both link relations and
  whose link lists hold no id twice, every graph reached through the public mutators,
  whether a call returns or raises, is reciprocal in both relations. On any graph,
  \<open>add_edge\<close> and \<open>add_precedence_edge\<close> leave the graph as it is and return when the edge
  is present in both directions, and raise \<open>NotationGraphError\<close> when it is present in one
  direction only.
\<close>

theorem mutators_keep_reciprocity:
  assumes "consistent g0" and "reachable g0 g"
  shows "reciprocal g \<and> precedence_reciprocal g
       \<and> (\<forall>h a b. in_graph h a \<and> in_graph h b \<longrightarrow>
            (b \<in> set (outs h a) \<and> a \<in> set (ins h b) \<longrightarrow> add_edge h a b = (None, h))
          \<and> ((b \<in> set (outs h a)) \<noteq> (a \<in> set (ins h b)) \<longrightarrow>
               add_edge h a b = (Some NotationGraphError, h))
          \<and> (b \<in> set (p_outs h a) \<and> a \<in> set (p_ins h b) \<longrightarrow>
               add_precedence_edge h a b = (None, h))
          \<and> ((b \<in> set (p_outs h a)) \<noteq> (a \<in> set (p_ins h b)) \<longrightarrow>
               add_precedence_edge h a b = (Some NotationGraphError, h)))"
proof -
  have "consistent g" using reachable_consistent [OF assms(2,1)] .
  then have "reciprocal g \<and> precedence_reciprocal g" by (simp add: consistent_def)
  moreover have "\<forall>h a b. in_graph h a \<and> in_graph h b \<longrightarrow>
            (b \<in> set (outs h a) \<and> a \<in> set (ins h b) \<longrightarrow> add_edge h a b = (None, h))
          \<and> ((b \<in> set (outs h a)) \<noteq> (a \<in> set (ins h b)) \<longrightarrow>
               add_edge h a b = (Some NotationGraphError, h))
          \<and> (b \<in> set (p_outs h a) \<and> a \<in> set (p_ins h b) \<longrightarrow>
               add_precedence_edge h a b = (None, h))
          \<and> ((b \<in> set (p_outs h a)) \<noteq> (a \<in> set (p_ins h b)) \<longrightarrow>
               add_precedence_edge h a b = (Some NotationGraphError, h))"
    by (auto simp: add_edge_def add_precedence_edge_def)
  ultimately show ?thesis by blast
qed

lemma g_dup_get:
  "in_graph g_dup a = (a = 1 \<or> a = 2)"
  "outs g_dup a = (if a = 1 then [2, 2] else [])"
  "ins g_dup a = (if a = 2 then [1] else [])"
  "p_outs g_dup a = []" "p_ins g_dup a = []"
  by (auto simp: g_dup_def NotationGraph_def sym_def in_graph_def outs_def ins_def
      p_outs_def p_ins_def)

text \<open>
  Claim C4 as stated fails when a link list holds an id twice: node 1 lists 2 twice among
  its outlinks and node 2 lists 1 once among its inlinks, which is reciprocal;
  \<open>remove_edge\<close> takes out one occurrence on each side, and 2 is still an outlink of 1
  while 1 is no longer an inlink of 2.
\<close>

theorem repeated_link_breaks_reciprocity:
  "reciprocal g_dup \<and> precedence_reciprocal g_dup
   \<and> reachable g_dup (snd (remove_edge g_dup 1 2 False))
   \<and> \<not> reciprocal (snd (remove_edge g_dup 1 2 False))"
proof -
  have r: "reciprocal g_dup" "precedence_reciprocal g_dup"
    by (auto simp: reciprocal_def precedence_reciprocal_def g_dup_get)
  have re: "reachable g_dup (snd (remove_edge g_dup 1 2 False))"
    by (intro reachable.by_remove_edge reachable.start)
  have "\<not> reciprocal (snd (remove_edge g_dup 1 2 False))"
    unfolding reciprocal_def
    by (auto simp: remove_edge_def g_dup_get Let_def intro!: exI [of _ 1] exI [of _ 2])
  with r re show ?thesis by blast
qed

theorem mutators_keep_reciprocity_witness:
  "reciprocal (snd (add_edge (NotationGraph [sym 1 ''stem'' [] [], sym 2 ''beam'' [] []]) 1 2))
   \<and> add_edge g_dup 1 2 = (None, g_dup)
   \<and> add_edge (NotationGraph [sym 1 ''stem'' [] [2], sym 2 ''beam'' [] []]) 1 2
       = (Some NotationGraphError, NotationGraph [sym 1 ''stem'' [] [2], sym 2 ''beam'' [] []])"
proof -
  let ?g0 = "NotationGraph [sym 1 ''stem'' [] [], sym 2 ''beam'' [] []]"
  let ?h = "NotationGraph [sym 1 ''stem'' [] [2], sym 2 ''beam'' [] []]"
  have c: "consistent ?g0"
    by (auto simp: consistent_def reciprocal_def precedence_reciprocal_def links_distinct_def
        NotationGraph_def sym_def in_graph_def outs_def ins_def p_outs_def p_ins_def)
  have r: "reachable ?g0 (snd (add_edge ?g0 1 2))"
    by (intro reachable.by_add_edge reachable.start)
  have h: "in_graph ?h 1" "in_graph ?h 2" "outs ?h 1 = [2]" "ins ?h 2 = []"
    by (simp_all add: NotationGraph_def sym_def in_graph_def outs_def ins_def)
  show ?thesis
    using mutators_keep_reciprocity [OF c r] h by (simp add: g_dup_get)
qed


section \<open>Bridging a node out of the precedence relation\<close>

lemma remove1_head_append: "remove1 p (p # ps @ rest) = ps @ rest"
  by simp

lemma unlink_predecessor_loop_ins:
  assumes "for_each (unlink_predecessor x) ps g = (None, g1)"
      and "in_graph g x" and "p_ins g x = ps @ rest"
  shows "p_ins g1 x = rest \<and> in_graph g1 x"
  using assms
proof (induction ps arbitrary: g)
  case Nil
  then show ?case by simp
next
  case (Cons p ps)
  obtain e h where b: "unlink_predecessor x p g = (e, h)"
    by (cases "unlink_predecessor x p g")
  with Cons.prems(1) have e: "e = None" and rest: "for_each (unlink_predecessor x) ps h = (None, g1)"
    by (cases e; simp)+
  have "in_graph h x \<and> p_ins h x = ps @ rest"
    using b e Cons.prems(2,3)
    by (auto simp: unlink_predecessor_def Let_def split: if_splits)
  then show ?case using Cons.IH [OF rest] by simp
qed

lemma unlink_predecessor_loop_checked:
  assumes "for_each (unlink_predecessor x) ps h = (None, g1)"
      and "\<forall>i. set (p_outs h i) \<subseteq> S i"
  shows "\<forall>p \<in> set ps. x \<in> S p"
  using assms
proof (induction ps arbitrary: h)
  case Nil
  then show ?case by simp
next
  case (Cons p ps)
  obtain e k where b: "unlink_predecessor x p h = (e, k)"
    by (cases "unlink_predecessor x p h")
  with Cons.prems(1) have e: "e = None" and rest: "for_each (unlink_predecessor x) ps k = (None, g1)"
    by (cases e; simp)+
  have here: "x \<in> set (p_outs h p)"
    using b e by (auto simp: unlink_predecessor_def Let_def split: if_splits)
  have sub: "\<forall>i. set (p_outs k i) \<subseteq> S i"
  proof
    fix i
    have "set (p_outs k i) \<subseteq> set (p_outs h i)"
      using b e set_remove1_subset [of x "p_outs h p"]
      by (auto simp: unlink_predecessor_def Let_def split: if_splits)
    then show "set (p_outs k i) \<subseteq> S i" using Cons.prems(2) by blast
  qed
  show ?case using here Cons.prems(2) Cons.IH [OF rest sub] by auto
qed

lemma unlink_predecessor_other_outs:
  "p \<noteq> x \<Longrightarrow> p_outs (snd (unlink_predecessor x p h)) x = p_outs h x"
  by (auto simp: unlink_predecessor_def Let_def)

lemma unlink_predecessor_loop_outs:
  assumes "x \<notin> set ps"
  shows "p_outs (snd (for_each (unlink_predecessor x) ps g)) x = p_outs g x"
proof (rule for_each_preserves_in [where P = "\<lambda>h. p_outs h x = p_outs g x"])
  fix p h
  assume "p \<in> set ps" and h: "p_outs h x = p_outs g x"
  then have "p \<noteq> x" using assms by auto
  then show "p_outs (snd (unlink_predecessor x p h)) x = p_outs g x"
    using unlink_predecessor_other_outs h by simp
qed simp

lemma unlink_descendant_loop:
  assumes "for_each (unlink_descendant x) ds h = (None, g2)"
      and "in_graph h x" and "p_ins h x = []" and "p_outs h x = ds @ rest"
  shows "x \<notin> set ds \<and> p_ins g2 x = [] \<and> p_outs g2 x = rest \<and> in_graph g2 x"
  using assms
proof (induction ds arbitrary: h)
  case Nil
  then show ?case by simp
next
  case (Cons d ds)
  obtain e k where b: "unlink_descendant x d h = (e, k)"
    by (cases "unlink_descendant x d h")
  with Cons.prems(1) have e: "e = None" and rest: "for_each (unlink_descendant x) ds k = (None, g2)"
    by (cases e; simp)+
  have dx: "d \<noteq> x"
    using b e Cons.prems(3) by (auto simp: unlink_descendant_def Let_def split: if_splits)
  have "in_graph k x \<and> p_ins k x = [] \<and> p_outs k x = ds @ rest"
    using b e dx Cons.prems(2,3,4)
    by (auto simp: unlink_descendant_def Let_def split: if_splits)
  then show ?case using Cons.IH [OF rest] dx by simp
qed


lemma has_key_in_graph:
  "has_p_outs g i \<Longrightarrow> in_graph g i"
  "has_p_ins g i \<Longrightarrow> in_graph g i"
  by (auto simp: has_p_outs_def has_p_ins_def in_graph_def split: option.splits)

lemma bridge_sets:
  "bridge p d h = (None, h') \<Longrightarrow> bridged p d h'"
  by (auto simp: bridge_def bridged_def Let_def split: if_splits dest: has_key_in_graph)

lemma bridge_keeps_bridged:
  "bridged p d h \<Longrightarrow> bridged p d (snd (bridge p' d' h))"
  by (auto simp: bridge_def bridged_def Let_def)

lemma bridge_all_keeps_bridged:
  "bridged p d h \<Longrightarrow> bridged p d (snd (bridge_all ds p' h))"
  unfolding bridge_all_def
  using for_each_preserves [of "bridged p d" "bridge p'" h ds] bridge_keeps_bridged
  by simp

lemma bridge_all_sets:
  assumes "bridge_all ds p h = (None, h')"
  shows "\<forall>d \<in> set ds. bridged p d h'"
proof -
  have r: "for_each (bridge p) ds h = (None, h')"
    using assms by (auto simp: bridge_all_def split: if_splits)
  show ?thesis
    by (rule for_each_None_all [OF r])
       (use bridge_sets bridge_keeps_bridged in \<open>auto, (metis snd_conv)+\<close>)
qed

lemma bridging_loop_sets:
  assumes "for_each (bridge_all ds) ps g = (None, g')"
  shows "\<forall>p \<in> set ps. \<forall>d \<in> set ds. bridged p d g'"
  by (rule for_each_None_all [OF assms, where R = "\<lambda>p h. \<forall>d \<in> set ds. bridged p d h"])
     (use bridge_all_sets bridge_all_keeps_bridged in \<open>auto, (metis snd_conv)+\<close>)

lemma bridge_other:
  "p \<noteq> x \<Longrightarrow> d \<noteq> x \<Longrightarrow>
   p_ins (snd (bridge p d h)) x = p_ins h x \<and> p_outs (snd (bridge p d h)) x = p_outs h x"
  by (auto simp: bridge_def Let_def)

lemma bridging_loop_other:
  assumes "x \<notin> set ps" and "x \<notin> set ds"
  shows "p_ins (snd (for_each (bridge_all ds) ps g)) x = p_ins g x
       \<and> p_outs (snd (for_each (bridge_all ds) ps g)) x = p_outs g x"
proof (rule for_each_preserves_in
         [where P = "\<lambda>h. p_ins h x = p_ins g x \<and> p_outs h x = p_outs g x"])
  fix p h
  assume p: "p \<in> set ps" and h: "p_ins h x = p_ins g x \<and> p_outs h x = p_outs g x"
  have px: "p \<noteq> x" using p assms(1) by auto
  have "p_ins (snd (for_each (bridge p) ds h)) x = p_ins g x
      \<and> p_outs (snd (for_each (bridge p) ds h)) x = p_outs g x"
  proof (rule for_each_preserves_in
           [where P = "\<lambda>k. p_ins k x = p_ins g x \<and> p_outs k x = p_outs g x"])
    fix d k
    assume "d \<in> set ds" and k: "p_ins k x = p_ins g x \<and> p_outs k x = p_outs g x"
    then have "d \<noteq> x" using assms(2) by auto
    then show "p_ins (snd (bridge p d k)) x = p_ins g x
             \<and> p_outs (snd (bridge p d k)) x = p_outs g x"
      using bridge_other [OF px] k by simp
  qed (rule h)
  then show "p_ins (snd (bridge_all ds p h)) x = p_ins g x
           \<and> p_outs (snd (bridge_all ds p h)) x = p_outs g x"
    using h by (simp add: bridge_all_def)
qed simp


lemma unlink_descendant_loop_not_self:
  assumes "for_each (unlink_descendant x) ds h = (None, g2)" and "p_ins h x = []"
  shows "x \<notin> set ds"
  using assms
proof (induction ds arbitrary: h)
  case Nil
  then show ?case by simp
next
  case (Cons d ds)
  obtain e k where b: "unlink_descendant x d h = (e, k)"
    by (cases "unlink_descendant x d h")
  with Cons.prems(1) have e: "e = None" and rest: "for_each (unlink_descendant x) ds k = (None, g2)"
    by (cases e; simp)+
  have dx: "d \<noteq> x"
    using b e Cons.prems(2) by (auto simp: unlink_descendant_def Let_def split: if_splits)
  have "p_ins k x = []"
    using b e dx Cons.prems(2) by (auto simp: unlink_descendant_def Let_def split: if_splits)
  then show ?case using Cons.IH [OF rest] dx by simp
qed

lemma remove_from_precedence_returned:
  assumes "remove_from_precedence g x = (None, g')"
  shows "(\<forall>p \<in> set (p_ins g x). \<forall>d \<in> set (p_outs g x). bridged p d g')
       \<and> p_ins g' x = [] \<and> p_outs g' x = []"
proof (cases "p_ins g x = [] \<and> p_outs g x = []")
  case True
  then have "g' = g" using assms by (auto simp: remove_from_precedence_def split: if_splits)
  then show ?thesis using True by simp
next
  case False
  let ?ps = "p_ins g x" and ?ds = "p_outs g x"
  have ing: "in_graph g x"
    using assms by (auto simp: remove_from_precedence_def split: if_splits)
  obtain e1 g1 where r1: "for_each (unlink_predecessor x) ?ps g = (e1, g1)"
    by (cases "for_each (unlink_predecessor x) ?ps g")
  have e1: "e1 = None"
    using assms ing False r1 by (cases e1) (auto simp: remove_from_precedence_def Let_def)
  obtain e2 g2 where r2: "for_each (unlink_descendant x) ?ds g1 = (e2, g2)"
    by (cases "for_each (unlink_descendant x) ?ds g1")
  have e2: "e2 = None"
    using assms ing False r1 e1 r2 by (cases e2) (auto simp: remove_from_precedence_def Let_def)
  have r3: "for_each (bridge_all ?ds) ?ps g2 = (None, g')"
    using assms ing False r1 e1 r2 e2 by (auto simp: remove_from_precedence_def Let_def)
  have i1: "p_ins g1 x = [] \<and> in_graph g1 x"
    using unlink_predecessor_loop_ins [of x ?ps g g1 "[]"] r1 e1 ing by simp
  have xd: "x \<notin> set ?ds"
    using unlink_descendant_loop_not_self [of x ?ds g1 g2] r2 e2 i1 by simp
  have xp: "x \<notin> set ?ps"
  proof
    assume "x \<in> set ?ps"
    then have "x \<in> set (p_outs g x)"
      using unlink_predecessor_loop_checked [of x ?ps g g1 "\<lambda>i. set (p_outs g i)"] r1 e1
      by auto
    with xd show False by simp
  qed
  have o1: "p_outs g1 x = ?ds"
    using unlink_predecessor_loop_outs [OF xp, of g] r1 by simp
  have i2: "p_ins g2 x = [] \<and> p_outs g2 x = []"
    using unlink_descendant_loop [of x ?ds g1 g2 "[]"] r2 e2 i1 o1 by simp
  have "p_ins g' x = [] \<and> p_outs g' x = []"
    using bridging_loop_other [OF xp xd, of g2] r3 i2 by simp
  then show ?thesis using bridging_loop_sets [OF r3] by simp
qed


lemma unlink_predecessor_precedence_consistent:
  "precedence_consistent g \<Longrightarrow> precedence_consistent (snd (unlink_predecessor x p g))"
  unfolding precedence_consistent_def precedence_reciprocal_def
  by (auto simp: unlink_predecessor_def Let_def)

lemma unlink_descendant_precedence_consistent:
  "precedence_consistent g \<Longrightarrow> precedence_consistent (snd (unlink_descendant x d g))"
  unfolding precedence_consistent_def precedence_reciprocal_def
  by (auto simp: unlink_descendant_def Let_def)

lemma in_list_has_key:
  "i \<in> set (p_outs g a) \<Longrightarrow> has_p_outs g a"
  "i \<in> set (p_ins g a) \<Longrightarrow> has_p_ins g a"
proof -
  show "i \<in> set (p_outs g a) \<Longrightarrow> has_p_outs g a"
  proof (cases "id_to_node_mapping g a")
    case None
    then show "i \<in> set (p_outs g a) \<Longrightarrow> has_p_outs g a" by (simp add: p_outs_def)
  next
    case (Some n)
    then show "i \<in> set (p_outs g a) \<Longrightarrow> has_p_outs g a"
      by (cases "precedence_outlinks n") (simp_all add: p_outs_def has_p_outs_def)
  qed
  show "i \<in> set (p_ins g a) \<Longrightarrow> has_p_ins g a"
  proof (cases "id_to_node_mapping g a")
    case None
    then show "i \<in> set (p_ins g a) \<Longrightarrow> has_p_ins g a" by (simp add: p_ins_def)
  next
    case (Some n)
    then show "i \<in> set (p_ins g a) \<Longrightarrow> has_p_ins g a"
      by (cases "precedence_inlinks n") (simp_all add: p_ins_def has_p_ins_def)
  qed
qed

lemma unlink_predecessor_loop_returns:
  assumes "precedence_consistent h" and "in_graph h x" and "p_ins h x = ps @ rest"
      and "\<forall>p \<in> set ps. in_graph h p"
  shows "fst (for_each (unlink_predecessor x) ps h) = None"
  using assms
proof (induction ps arbitrary: h)
  case Nil
  then show ?case by simp
next
  case (Cons p ps)
  have pin: "in_graph h p" using Cons.prems(4) by simp
  have "p \<in> set (p_ins h x)" using Cons.prems(3) by simp
  then have xo: "x \<in> set (p_outs h p)"
    using Cons.prems(1,2) pin by (auto simp: precedence_consistent_def precedence_reciprocal_def)
  obtain k where k: "unlink_predecessor x p h = (None, k)"
    and k2: "in_graph k x" "p_ins k x = ps @ rest" "\<forall>q \<in> set ps. in_graph k q"
    using xo in_list_has_key(1) [OF xo] pin Cons.prems(2,3,4)
    by (auto simp: unlink_predecessor_def Let_def)
  have "precedence_consistent k"
    using unlink_predecessor_precedence_consistent [OF Cons.prems(1), of x p] k by simp
  then show ?case using Cons.IH [of k] k k2 by simp
qed

lemma unlink_descendant_loop_returns:
  assumes "precedence_consistent h" and "in_graph h x" and "p_outs h x = ds @ rest"
      and "\<forall>d \<in> set ds. in_graph h d"
  shows "fst (for_each (unlink_descendant x) ds h) = None"
  using assms
proof (induction ds arbitrary: h)
  case Nil
  then show ?case by simp
next
  case (Cons d ds)
  have din: "in_graph h d" using Cons.prems(4) by simp
  have "d \<in> set (p_outs h x)" using Cons.prems(3) by simp
  then have xi: "x \<in> set (p_ins h d)"
    using Cons.prems(1,2) din by (auto simp: precedence_consistent_def precedence_reciprocal_def)
  obtain k where k: "unlink_descendant x d h = (None, k)"
    and k2: "in_graph k x" "p_outs k x = ds @ rest" "\<forall>q \<in> set ds. in_graph k q"
    using xi in_list_has_key(2) [OF xi] din Cons.prems(2,3,4)
    by (auto simp: unlink_descendant_def Let_def)
  have "precedence_consistent k"
    using unlink_descendant_precedence_consistent [OF Cons.prems(1), of x d] k by simp
  then show ?case using Cons.IH [of k] k k2 by simp
qed

lemma for_each_returns:
  assumes "\<And>x h. x \<in> set xs \<Longrightarrow> P h \<Longrightarrow> fst (body x h) = None \<and> P (snd (body x h))"
      and "P g"
  shows "fst (for_each body xs g) = None \<and> P (snd (for_each body xs g))"
  using assms
proof (induction xs arbitrary: g)
  case Nil
  then show ?case by simp
next
  case (Cons x xs)
  obtain e h where b: "body x g = (e, h)" by (cases "body x g")
  have "e = None \<and> P h" using Cons.prems(1) [of x g] Cons.prems(2) b by simp
  then show ?case using Cons.IH [of h] Cons.prems(1) b by simp
qed

lemma bridge_returns:
  "bridge_ready ps ds h \<Longrightarrow> p \<in> set ps \<Longrightarrow> d \<in> set ds \<Longrightarrow> fst (bridge p d h) = None"
  by (auto simp: bridge_ready_def bridge_def Let_def)

lemma bridge_all_returns:
  assumes "bridge_ready ps ds h" and "p \<in> set ps"
  shows "fst (bridge_all ds p h) = None \<and> bridge_ready ps ds (snd (bridge_all ds p h))"
proof -
  have "fst (for_each (bridge p) ds h) = None
        \<and> bridge_ready ps ds (snd (for_each (bridge p) ds h))"
    by (rule for_each_returns [where P = "bridge_ready ps ds"])
       (use assms bridge_returns bridge_keeps in auto)
  then show ?thesis using assms by (auto simp: bridge_all_def bridge_ready_def)
qed

lemma remove_from_precedence_returns:
  assumes "precedence_consistent g" and "in_graph g x"
      and "\<forall>i \<in> set (p_ins g x) \<union> set (p_outs g x). in_graph g i \<and> i \<noteq> x"
  shows "fst (remove_from_precedence g x) = None"
proof (cases "p_ins g x = [] \<and> p_outs g x = []")
  case True
  then show ?thesis using assms(2) by (simp add: remove_from_precedence_def)
next
  case False
  let ?ps = "p_ins g x" and ?ds = "p_outs g x"
  obtain e1 g1 where r1: "for_each (unlink_predecessor x) ?ps g = (e1, g1)"
    by (cases "for_each (unlink_predecessor x) ?ps g")
  have e1: "e1 = None"
    using unlink_predecessor_loop_returns [of g x ?ps "[]"] assms r1 by simp
  have c1: "precedence_consistent g1"
    using for_each_preserves [of precedence_consistent "unlink_predecessor x" g ?ps]
      unlink_predecessor_precedence_consistent assms(1) r1 by simp
  have in1: "\<forall>i. in_graph g1 i = in_graph g i"
    using for_each_preserves
      [of "\<lambda>h. \<forall>i. in_graph h i = in_graph g i" "unlink_predecessor x" g ?ps] r1
    by (auto simp: unlink_predecessor_def Let_def)
  have xp: "x \<notin> set ?ps" using assms(3) by auto
  have o1: "p_outs g1 x = ?ds"
    using unlink_predecessor_loop_outs [OF xp, of g] r1 by simp
  have p1: "\<forall>p \<in> set ?ps. in_graph g1 p \<and> has_p_outs g1 p"
    by (rule for_each_None_all [where body = "unlink_predecessor x" and g = g])
       (use r1 e1 unlink_predecessor_ok unlink_predecessor_keeps in \<open>auto, (metis snd_conv)+\<close>)
  obtain e2 g2 where r2: "for_each (unlink_descendant x) ?ds g1 = (e2, g2)"
    by (cases "for_each (unlink_descendant x) ?ds g1")
  have e2: "e2 = None"
    using unlink_descendant_loop_returns [of g1 x ?ds "[]"] c1 in1 o1 assms(2,3) r2 by simp
  have p2: "\<forall>p \<in> set ?ps. in_graph g2 p \<and> has_p_outs g2 p"
    using for_each_preserves
      [of "\<lambda>h. \<forall>p \<in> set ?ps. in_graph h p \<and> has_p_outs h p" "unlink_descendant x" g1 ?ds]
      unlink_descendant_keeps(2) p1 r2 by simp
  have d2: "\<forall>d \<in> set ?ds. in_graph g2 d \<and> has_p_ins g2 d"
    by (rule for_each_None_all [where body = "unlink_descendant x" and g = g1])
       (use r2 e2 unlink_descendant_ok unlink_descendant_keeps(1) in \<open>auto, (metis snd_conv)+\<close>)
  have "fst (for_each (bridge_all ?ds) ?ps g2) = None
        \<and> bridge_ready ?ps ?ds (snd (for_each (bridge_all ?ds) ?ps g2))"
    by (rule for_each_returns [where P = "bridge_ready ?ps ?ds"])
       (use p2 d2 bridge_all_returns in \<open>auto simp: bridge_ready_def\<close>)
  then show ?thesis
    using assms(2) False r1 e1 r2 e2 by (simp add: remove_from_precedence_def Let_def)
qed
text \<open>
  Claim C8, amended. When \<open>remove_from_precedence\<close> returns, every former precedence
  predecessor of the node lists every former precedence successor among its precedence
  outlinks, every such successor lists every such predecessor among its precedence inlinks,
  and the node itself is left with no precedence inlink and no precedence outlink. The
  call returns on a graph whose precedence links are reciprocal and hold no id twice, when
  the node's precedence neighbours are nodes of the graph other than the node itself.
\<close>

theorem remove_from_precedence_bridges:
  "(\<forall>g'. remove_from_precedence g x = (None, g') \<longrightarrow>
      (\<forall>p \<in> set (p_ins g x). \<forall>d \<in> set (p_outs g x).
         d \<in> set (p_outs g' p) \<and> p \<in> set (p_ins g' d))
      \<and> p_ins g' x = [] \<and> p_outs g' x = [])
   \<and> (precedence_consistent g \<and> in_graph g x
        \<and> (\<forall>i \<in> set (p_ins g x) \<union> set (p_outs g x). in_graph g i \<and> i \<noteq> x) \<longrightarrow>
      fst (remove_from_precedence g x) = None)"
  using remove_from_precedence_returned [of g x] remove_from_precedence_returns [of g x]
  by (simp add: bridged_def)

theorem remove_from_precedence_bridges_witness:
  "fst (remove_from_precedence chain3 2) = None
   \<and> p_outs (snd (remove_from_precedence chain3 2)) 1 = [3]
   \<and> p_ins (snd (remove_from_precedence chain3 2)) 3 = [1]
   \<and> p_ins (snd (remove_from_precedence chain3 2)) 2 = []
   \<and> p_outs (snd (remove_from_precedence chain3 2)) 2 = []"
proof -
  have get: "\<And>a. in_graph chain3 a = (a = 1 \<or> a = 2 \<or> a = 3)"
    "\<And>a. p_outs chain3 a = (if a = 1 then [2] else if a = 2 then [3] else [])"
    "\<And>a. p_ins chain3 a = (if a = 2 then [1] else if a = 3 then [2] else [])"
    by (auto simp: chain3_def NotationGraph_def linked_def in_graph_def p_outs_def p_ins_def)
  have c: "precedence_consistent chain3"
    by (auto simp: precedence_consistent_def precedence_reciprocal_def get)
  have ret: "fst (remove_from_precedence chain3 2) = None"
    using remove_from_precedence_bridges [of chain3 2] c by (simp add: get)
  then obtain g' where g': "remove_from_precedence chain3 2 = (None, g')"
    by (cases "remove_from_precedence chain3 2") simp
  have post: "3 \<in> set (p_outs g' 1) \<and> 1 \<in> set (p_ins g' 3)
              \<and> p_ins g' 2 = [] \<and> p_outs g' 2 = []"
    using remove_from_precedence_bridges [of chain3 2] g' by (simp add: get)
  have val: "p_outs g' 1 = [3] \<and> p_ins g' 3 = [1]"
    using g'
    by (auto simp: remove_from_precedence_def unlink_predecessor_def unlink_descendant_def
        bridge_all_def bridge_def get Let_def has_p_outs_def has_p_ins_def
        chain3_def NotationGraph_def linked_def set_p_outs_def set_p_ins_def modify_def
        p_outs_def p_ins_def in_graph_def)
  show ?thesis using ret g' post val by simp
qed

lemma example_graphs_reciprocal:
  "precedence_reciprocal g_self \<and> precedence_reciprocal g_twice
   \<and> precedence_reciprocal g_dangling"
  by (auto simp: precedence_reciprocal_def g_self_def g_twice_def g_dangling_def
      NotationGraph_def linked_def in_graph_def p_outs_def p_ins_def)

text \<open>
  Claim C8 as stated fails on graphs whose precedence links are reciprocal. Where node 1
  precedes itself, the call raises \<open>ValueError\<close> and leaves node 1, its own former
  predecessor, without its former successor among its outlinks. Where node 2 lists its
  predecessor 1 twice, the call raises \<open>ValueError\<close> and node 2 retains an inlink. Where
  the predecessor 9 of node 1 is no node of the graph, the call raises \<open>KeyError\<close> and
  node 1 retains its inlink.
\<close>

theorem remove_from_precedence_raises_on_reciprocal_links:
  "precedence_reciprocal g_self
   \<and> fst (remove_from_precedence g_self 1) = Some ValueError
   \<and> 1 \<in> set (p_ins g_self 1) \<and> 1 \<in> set (p_outs g_self 1)
   \<and> 1 \<notin> set (p_outs (snd (remove_from_precedence g_self 1)) 1)
   \<and> precedence_reciprocal g_twice
   \<and> fst (remove_from_precedence g_twice 2) = Some ValueError
   \<and> p_ins (snd (remove_from_precedence g_twice 2)) 2 = [1]
   \<and> precedence_reciprocal g_dangling
   \<and> fst (remove_from_precedence g_dangling 1) = Some KeyError
   \<and> p_ins (snd (remove_from_precedence g_dangling 1)) 1 = [9]"
proof -
  have "fst (remove_from_precedence g_self 1) = Some ValueError
        \<and> 1 \<in> set (p_ins g_self 1) \<and> 1 \<in> set (p_outs g_self 1)
        \<and> 1 \<notin> set (p_outs (snd (remove_from_precedence g_self 1)) 1)"
    by code_simp
  moreover have "fst (remove_from_precedence g_twice 2) = Some ValueError
        \<and> p_ins (snd (remove_from_precedence g_twice 2)) 2 = [1]"
    by code_simp
  moreover have "fst (remove_from_precedence g_dangling 1) = Some KeyError
        \<and> p_ins (snd (remove_from_precedence g_dangling 1)) 1 = [9]"
    by code_simp
  ultimately show ?thesis using example_graphs_reciprocal by simp
qed

section \<open>The walk over the precedence graph\<close>

lemma chain_onsets:
  "onsets BaseOnsetsInferenceStrategy [(1, [], [2], 1), (2, [1], [3], 1), (3, [2], [], 1)]
   = Some (Inr ([(1, 0), (2, 1), (3, 2)], []))"
  by (simp add: onsets_def onsets_from_def initial_state_def seed_def precedence_nodes_def
      PrecedenceGraphNode_def walk.simps walk_step_def
      append_absent_def onset_proposals_def choose_onset_def dict_set_def
      BaseOnsetsInferenceStrategy_def)

lemma append_absent_shape:
  "\<exists>new. append_absent pending posts = pending @ new \<and> distinct new
         \<and> set new \<inter> set pending = {}"
  unfolding append_absent_def
proof (induction posts arbitrary: pending)
  case Nil
  show ?case by simp
next
  case (Cons p ps)
  show ?case
  proof (cases "p \<in> set pending")
    case True
    then show ?thesis using Cons [of pending] by simp
  next
    case False
    obtain new where new:
      "fold (\<lambda>post_q acc. if post_q \<in> set acc then acc else acc @ [post_q]) ps (pending @ [p])
         = (pending @ [p]) @ new"
      "distinct new" "set new \<inter> set (pending @ [p]) = {}"
      using Cons [of "pending @ [p]"] by blast
    have "fold (\<lambda>post_q acc. if post_q \<in> set acc then acc else acc @ [post_q]) (p # ps) pending
            = pending @ (p # new)
          \<and> distinct (p # new) \<and> set (p # new) \<inter> set pending = {}"
      using False new by auto
    then show ?thesis by (rule exI [of _ "p # new"])
  qed
qed

lemma walk_step_Continue:
  assumes "walk_step strat s = Inr (Continue s')"
  shows "\<exists>q. p_nodes s (queue s ! qstart s) = Some q
         \<and> ((\<exists>v. onset q = Some v \<and> \<not> v > 0
               \<and> s' = s\<lparr> qstart := qstart s + 1,
                          queue := append_absent (queue s) (p_outlinks q),
                          table := dict_set (table s) (queue s ! qstart s) v \<rparr>)
            \<or> (onset q = None
               \<and> s' = s\<lparr> qstart := qstart s + 1,
                          queue := append_absent (queue s) (p_outlinks q) @ [queue s ! qstart s],
                          delayed_prec_nodes := delayed_prec_nodes s @ [queue s ! qstart s] \<rparr>)
            \<or> (\<exists>new_onset ws. onset q = None
               \<and> s' = s\<lparr> qstart := qstart s + 1,
                          queue := append_absent (queue s) (p_outlinks q),
                          p_nodes := (p_nodes s)
                            (queue s ! qstart s \<mapsto> q\<lparr> onset := Some new_onset \<rparr>),
                          table := dict_set (table s) (queue s ! qstart s) new_onset,
                          warnings := warnings s @ ws \<rparr>))"
  using assms
  by (auto simp: walk_step_def Let_def
      split: option.splits sum.splits prod.splits if_splits)

lemma walk_step_Break:
  assumes "walk_step strat s = Inr (Break s')"
  shows "\<exists>q. p_nodes s (queue s ! qstart s) = Some q
         \<and> s' = s\<lparr> qstart := qstart s + 1,
                    queue := append_absent (queue s) (p_outlinks q) \<rparr>"
  using assms
  by (auto simp: walk_step_def Let_def
      split: option.splits sum.splits prod.splits if_splits)

lemma as_seeded_step:
  assumes inv: "as_seeded s0 s"
      and pending: "length (queue s) - qstart s > 0"
      and step: "walk_step strat s = Inr (Continue s')"
  shows "as_seeded s0 s'"
proof -
  let ?i = "queue s ! qstart s"
  have lt: "qstart s < length (queue s)" using pending by simp
  have dq: "distinct (drop (qstart s) (queue s))"
    and same: "\<And>i. i \<in> set (drop (qstart s) (queue s)) \<or> i \<notin> set (queue s)
                 \<Longrightarrow> p_nodes s i = p_nodes s0 i"
    using inv by (auto simp: as_seeded_def)
  have dr: "drop (qstart s) (queue s) = ?i # drop (Suc (qstart s)) (queue s)"
    using lt by (simp add: Cons_nth_drop_Suc)
  have inot: "?i \<notin> set (drop (Suc (qstart s)) (queue s))"
    and drest: "distinct (drop (Suc (qstart s)) (queue s))"
    using dq dr by auto
  have iin: "?i \<in> set (queue s)" using lt by simp
  have sub: "set (drop (Suc (qstart s)) (queue s)) \<subseteq> set (drop (qstart s) (queue s))"
    using dr by auto
  have sub2: "set (drop (Suc (qstart s)) (queue s)) \<subseteq> set (queue s)"
    by (meson set_drop_subset)
  from walk_step_Continue [OF step] obtain q where
    cases: "(\<exists>v. onset q = Some v \<and> \<not> v > 0
               \<and> s' = s\<lparr> qstart := qstart s + 1,
                          queue := append_absent (queue s) (p_outlinks q),
                          table := dict_set (table s) ?i v \<rparr>)
            \<or> (onset q = None
               \<and> s' = s\<lparr> qstart := qstart s + 1,
                          queue := append_absent (queue s) (p_outlinks q) @ [?i],
                          delayed_prec_nodes := delayed_prec_nodes s @ [?i] \<rparr>)
            \<or> (\<exists>new_onset ws. onset q = None
               \<and> s' = s\<lparr> qstart := qstart s + 1,
                          queue := append_absent (queue s) (p_outlinks q),
                          p_nodes := (p_nodes s)(?i \<mapsto> q\<lparr> onset := Some new_onset \<rparr>),
                          table := dict_set (table s) ?i new_onset,
                          warnings := warnings s @ ws \<rparr>)"
    by blast
  obtain new where new: "append_absent (queue s) (p_outlinks q) = queue s @ new"
      "distinct new" "set new \<inter> set (queue s) = {}"
    using append_absent_shape by blast
  have inew: "?i \<notin> set new" using new(3) iin by auto
  have disj: "set (drop (Suc (qstart s)) (queue s)) \<inter> set new = {}"
    using new(3) sub2 by auto
  from cases show ?thesis
  proof (elim disjE exE conjE)
    fix v
    assume s': "s' = s\<lparr> qstart := qstart s + 1,
                          queue := append_absent (queue s) (p_outlinks q),
                          table := dict_set (table s) ?i v \<rparr>"
    show ?thesis
      unfolding as_seeded_def
      using lt new drest disj same sub by (auto simp: s')
  next
    assume s': "s' = s\<lparr> qstart := qstart s + 1,
                          queue := append_absent (queue s) (p_outlinks q) @ [?i],
                          delayed_prec_nodes := delayed_prec_nodes s @ [?i] \<rparr>"
    show ?thesis
      unfolding as_seeded_def
      using lt new drest disj same sub inot inew dr by (auto simp: s')
  next
    fix new_onset ws
    assume s': "s' = s\<lparr> qstart := qstart s + 1,
                          queue := append_absent (queue s) (p_outlinks q),
                          p_nodes := (p_nodes s)(?i \<mapsto> q\<lparr> onset := Some new_onset \<rparr>),
                          table := dict_set (table s) ?i new_onset,
                          warnings := warnings s @ ws \<rparr>"
    show ?thesis
      unfolding as_seeded_def
      using lt new drest disj same sub inot inew iin by (auto simp: s')
  qed
qed

lemma visits_as_seeded:
  assumes "visits strat s0 s" and "as_seeded s0 s0"
  shows "as_seeded s0 s"
  using assms by (induction rule: visits.induct) (auto intro: as_seeded_step)

lemma visits_walk:
  assumes "visits strat s0 s"
  shows "walk strat s0 = walk strat s"
  using assms
proof (induction rule: visits.induct)
  case start
  show ?case by simp
next
  case (turn s s')
  have "walk strat s = walk strat s'"
    using turn(2,3) by (subst walk.simps) simp
  with turn show ?case by simp
qed

lemma walk_preserves:
  assumes step: "\<And>s s'. P s \<Longrightarrow>
            walk_step strat s = Inr (Continue s') \<or> walk_step strat s = Inr (Break s') \<Longrightarrow> P s'"
      and run: "walk strat s = Some (Inr sf)" and start: "P s"
  shows "P sf"
proof -
  define Q where "Q = (\<lambda>strat' s (y :: error + walk_state). strat' = strat \<longrightarrow> (\<forall>sf'. y = Inr sf' \<longrightarrow> P s \<longrightarrow> P sf'))"
  have "Q strat s (Inr sf)"
  proof (rule walk.raw_induct [where P = Q, OF _ run], unfold Q_def)
    fix walk' :: "strategy \<Rightarrow> walk_state \<Rightarrow> (error + walk_state) option"
    fix strat' s y
    assume IH: "\<And>a b c. walk' a b = Some c \<Longrightarrow>
                  a = strat \<longrightarrow> (\<forall>sf'. c = Inr sf' \<longrightarrow> P b \<longrightarrow> P sf')"
       and body: "(if 0 < length (queue s) - qstart s
                   then case walk_step strat' s of
                          Inl e \<Rightarrow> Some (Inl e)
                        | Inr (Continue s') \<Rightarrow> walk' strat' s'
                        | Inr (Break s') \<Rightarrow> Some (Inr s')
                   else Some (Inr s)) = Some y"
    show "strat' = strat \<longrightarrow> (\<forall>sf'. y = Inr sf' \<longrightarrow> P s \<longrightarrow> P sf')"
    proof (intro impI allI)
      fix sf'
      assume st: "strat' = strat" and y: "y = Inr sf'" and p: "P s"
      show "P sf'"
      proof (cases "0 < length (queue s) - qstart s")
        case False
        then show ?thesis using body y p by simp
      next
        case True
        show ?thesis
        proof (cases "walk_step strat s")
          case (Inl e)
          then show ?thesis using body True st y by simp
        next
          case (Inr f)
          show ?thesis
          proof (cases f)
            case (Continue s')
            then have "walk' strat s' = Some y" using body True st Inr by simp
            moreover have "P s'" using step [OF p] Inr Continue by simp
            ultimately show ?thesis using IH [of strat s' y] y by simp
          next
            case (Break s')
            then have "sf' = s'" using body True st Inr y by simp
            moreover have "P s'" using step [OF p] Inr Break by simp
            ultimately show ?thesis by simp
          qed
        qed
      qed
    qed
  qed
  then show ?thesis using start by (simp add: Q_def)
qed

lemma map_of_dict_set: "map_of (dict_set d k v) = (map_of d)(k \<mapsto> v)"
  by (simp add: dict_set_def update_conv')

lemma settled_step:
  assumes "settled i v s"
      and "walk_step strat s = Inr (Continue s') \<or> walk_step strat s = Inr (Break s')"
  shows "settled i v s'"
  using assms(2)
proof
  assume "walk_step strat s = Inr (Continue s')"
  from walk_step_Continue [OF this] show ?thesis
    using assms(1) by (auto simp: settled_def map_of_dict_set)
next
  assume "walk_step strat s = Inr (Break s')"
  from walk_step_Break [OF this] show ?thesis
    using assms(1) by (auto simp: settled_def)
qed

lemma warned_step:
  assumes "w \<in> set (warnings s)"
      and "walk_step strat s = Inr (Continue s') \<or> walk_step strat s = Inr (Break s')"
  shows "w \<in> set (warnings s')"
  using assms(2)
proof
  assume "walk_step strat s = Inr (Continue s')"
  from walk_step_Continue [OF this] show ?thesis
    using assms(1) by auto
next
  assume "walk_step strat s = Inr (Break s')"
  from walk_step_Break [OF this] show ?thesis
    using assms(1) by auto
qed

lemma onsets_from_settled:
  assumes "onsets_from strat s = Some (Inr (t, ws))" and "settled i v s"
  shows "map_of t i = Some v"
proof -
  from assms(1) obtain sf where sf: "walk strat s = Some (Inr sf)" "t = table sf"
    by (auto simp: onsets_from_def split: option.splits sum.splits)
  have "settled i v sf"
    by (rule walk_preserves [where P = "settled i v", OF _ sf(1) assms(2)])
       (rule settled_step)
  then show ?thesis using sf(2) by (simp add: settled_def)
qed

lemma onsets_from_warned:
  assumes "onsets_from strat s = Some (Inr (t, ws))" and "w \<in> set (warnings s)"
  shows "w \<in> set ws"
proof -
  from assms(1) obtain sf where sf: "walk strat s = Some (Inr sf)" "ws = warnings sf"
    by (auto simp: onsets_from_def split: option.splits sum.splits)
  have "w \<in> set (warnings sf)"
    by (rule walk_preserves [where P = "\<lambda>s. w \<in> set (warnings s)", OF _ sf(1) assms(2)])
       (rule warned_step)
  then show ?thesis using sf(2) by simp
qed

lemma visits_onsets_from:
  assumes "visits strat s0 s"
  shows "onsets_from strat s0 = onsets_from strat s"
  using visits_walk [OF assms] by (simp add: onsets_from_def)

lemma turn_onsets_from:
  assumes "length (queue s) - qstart s > 0"
  shows "onsets_from strat s =
           (case walk_step strat s of
              Inl e \<Rightarrow> Some (Inl e)
            | Inr (Continue s') \<Rightarrow> onsets_from strat s'
            | Inr (Break s') \<Rightarrow> Some (Inr (table s', warnings s')))"
  using assms
  by (subst onsets_from_def, subst walk.simps)
     (simp add: onsets_from_def split: sum.splits flow.splits)

lemma seed_lookup:
  "map_of (seed ns) i =
     map_option (\<lambda>n. if p_inlinks n = [] then n\<lparr> onset := Some 0 \<rparr> else n) (map_of ns i)"
  by (induction ns) (auto simp: seed_def)

lemma precedence_nodes_lookup:
  "map_of (precedence_nodes entries) i = Some n \<Longrightarrow> onset n = None"
  by (induction entries) (auto simp: precedence_nodes_def PrecedenceGraphNode_def split: if_splits)

lemma initial_as_seeded:
  assumes "distinct (map fst entries)"
  shows "as_seeded (initial_state (precedence_nodes entries))
           (initial_state (precedence_nodes entries))"
proof -
  have "map fst (precedence_nodes entries) = map fst entries"
    by (simp add: precedence_nodes_def split_beta comp_def)
  then have "distinct (map fst (precedence_nodes entries))" using assms by simp
  then have "distinct (map fst (filter (\<lambda>(i, n). p_inlinks n = []) (precedence_nodes entries)))"
    by (rule distinct_map_filter)
  then show ?thesis by (simp add: as_seeded_def initial_state_def)
qed

lemma pending_as_seeded:
  assumes "distinct (map fst entries)"
      and "visits strat (initial_state (precedence_nodes entries)) s"
      and "length (queue s) - qstart s > 0"
      and "p_nodes s (queue s ! qstart s) = Some q"
  shows "(p_inlinks q = [] \<and> onset q = Some 0) \<or> (p_inlinks q \<noteq> [] \<and> onset q = None)"
proof -
  let ?s0 = "initial_state (precedence_nodes entries)"
  have inv: "as_seeded ?s0 s"
    using visits_as_seeded [OF assms(2) initial_as_seeded [OF assms(1)]] .
  have "queue s ! qstart s \<in> set (drop (qstart s) (queue s))"
    using assms(3) by (metis Cons_nth_drop_Suc list.set_intros(1) zero_less_diff)
  then have "p_nodes s (queue s ! qstart s) = p_nodes ?s0 (queue s ! qstart s)"
    using inv by (simp add: as_seeded_def)
  then have "map_of (seed (precedence_nodes entries)) (queue s ! qstart s) = Some q"
    using assms(4) by (simp add: initial_state_def)
  then obtain n where n: "map_of (precedence_nodes entries) (queue s ! qstart s) = Some n"
      "q = (if p_inlinks n = [] then n\<lparr> onset := Some 0 \<rparr> else n)"
    by (auto simp: seed_lookup)
  show ?thesis using n(2) precedence_nodes_lookup [OF n(1)] by auto
qed


lemma those_Some_iff:
  "those xs = Some ys \<longleftrightarrow> xs = map Some ys"
proof (induction xs arbitrary: ys)
  case Nil
  then show ?case by auto
next
  case (Cons x xs)
  then show ?case by (cases x) (auto split: option.splits)
qed

lemma onset_proposals_resolved:
  assumes "\<forall>pq \<in> set prec_qs. onset pq \<noteq> None"
  shows "onset_proposals prec_qs = Some (map (\<lambda>pq. the (onset pq) + duration pq) prec_qs)"
  unfolding onset_proposals_def those_Some_iff using assms by auto

lemma nodes_at_length:
  "nodes_at m is = Inr ns \<Longrightarrow> length ns = length is"
  by (induction "is" arbitrary: ns) (auto split: option.splits sum.splits)

lemma seeding:
  assumes "distinct (map fst entries)"
  shows "queue (initial_state (precedence_nodes entries))
           = map fst (filter (\<lambda>(i, inlinks', outlinks', duration'). inlinks' = []) entries)
         \<and> (\<forall>i inlinks' outlinks' duration'.
               (i, inlinks', outlinks', duration') \<in> set entries \<longrightarrow>
               p_nodes (initial_state (precedence_nodes entries)) i
                 = Some \<lparr> p_inlinks = inlinks', p_outlinks = outlinks',
                          onset = (if inlinks' = [] then Some 0 else None),
                          duration = duration' \<rparr>)"
proof -
  have q: "queue (initial_state (precedence_nodes entries))
           = map fst (filter (\<lambda>(i, inlinks', outlinks', duration'). inlinks' = []) entries)"
    by (induction entries)
       (auto simp: initial_state_def precedence_nodes_def PrecedenceGraphNode_def)
  have d: "distinct (map fst (precedence_nodes entries))"
    using assms by (simp add: precedence_nodes_def split_beta comp_def)
  have "\<And>i inlinks' outlinks' duration'.
          (i, inlinks', outlinks', duration') \<in> set entries \<Longrightarrow>
          map_of (precedence_nodes entries) i
            = Some (PrecedenceGraphNode inlinks' outlinks' duration')"
  proof -
    fix i inlinks' outlinks' duration'
    assume "(i, inlinks', outlinks', duration') \<in> set entries"
    then have "(i, PrecedenceGraphNode inlinks' outlinks' duration')
                 \<in> set (precedence_nodes entries)"
      by (force simp: precedence_nodes_def)
    then show "map_of (precedence_nodes entries) i
                 = Some (PrecedenceGraphNode inlinks' outlinks' duration')"
      using d by simp
  qed
  then show ?thesis
    using q by (simp add: initial_state_def seed_lookup PrecedenceGraphNode_def)
qed

text \<open>
  Claim C1. In every state that the walk of \<open>onsets\<close> comes to, a dequeued node that
  carries an onset has this onset recorded in the table, whatever its value; the walk goes
  on from the state so reached, and the table that \<open>onsets\<close> returns holds the onset for
  the node. Such a node is a source node and its onset is 0: the queue starts as the nodes
  without inlinks, these are seeded with onset 0, and every other node starts without
  onset.
\<close>

theorem carried_onset_recorded:
  assumes "distinct (map fst entries)"
      and "visits strat (initial_state (precedence_nodes entries)) s"
      and "length (queue s) - qstart s > 0"
      and "p_nodes s (queue s ! qstart s) = Some q"
      and "onset q = Some v"
  shows "walk_step strat s
           = Inr (Continue (s\<lparr> qstart := qstart s + 1,
                               queue := append_absent (queue s) (p_outlinks q),
                               table := dict_set (table s) (queue s ! qstart s) v \<rparr>))
       \<and> onsets strat entries
           = onsets_from strat
               (s\<lparr> qstart := qstart s + 1,
                   queue := append_absent (queue s) (p_outlinks q),
                   table := dict_set (table s) (queue s ! qstart s) v \<rparr>)
       \<and> (\<forall>t ws. onsets strat entries = Some (Inr (t, ws)) \<longrightarrow>
              map_of t (queue s ! qstart s) = Some v)
       \<and> v = 0 \<and> p_inlinks q = []
       \<and> queue (initial_state (precedence_nodes entries))
           = map fst (filter (\<lambda>(i, inlinks', outlinks', duration'). inlinks' = []) entries)
       \<and> (\<forall>i inlinks' outlinks' duration'.
              (i, inlinks', outlinks', duration') \<in> set entries \<longrightarrow>
              p_nodes (initial_state (precedence_nodes entries)) i
                = Some \<lparr> p_inlinks = inlinks', p_outlinks = outlinks',
                         onset = (if inlinks' = [] then Some 0 else None),
                         duration = duration' \<rparr>)"
proof -
  let ?s' = "s\<lparr> qstart := qstart s + 1,
                  queue := append_absent (queue s) (p_outlinks q),
                  table := dict_set (table s) (queue s ! qstart s) v \<rparr>"
  have root: "v = 0 \<and> p_inlinks q = []"
    using pending_as_seeded [OF assms(1-4)] assms(5) by auto
  have step: "walk_step strat s = Inr (Continue ?s')"
    using assms(4,5) root by (simp add: walk_step_def Let_def)
  have run: "onsets strat entries = onsets_from strat ?s'"
    using visits_onsets_from [OF assms(2)] turn_onsets_from [OF assms(3), of strat] step
    by (simp add: onsets_def)
  have "settled (queue s ! qstart s) v ?s'"
    using assms(4,5) by (simp add: settled_def map_of_dict_set)
  then have final: "\<forall>t ws. onsets strat entries = Some (Inr (t, ws)) \<longrightarrow>
                      map_of t (queue s ! qstart s) = Some v"
    using onsets_from_settled run by metis
  show ?thesis using step run final root seeding [OF assms(1)] by blast
qed

theorem carried_onset_recorded_witness:
  "onsets BaseOnsetsInferenceStrategy [(1, [], [2], 1), (2, [1], [], 1)]
     = Some (Inr ([(1, 0), (2, 1)], []))"
  using carried_onset_recorded
    [of "[(1, [], [2], 1), (2, [1], [], 1)]" BaseOnsetsInferenceStrategy
        "initial_state (precedence_nodes [(1, [], [2], 1), (2, [1], [], 1)])"
        "\<lparr> p_inlinks = [], p_outlinks = [2], onset = Some 0, duration = 1 \<rparr>" 0]
  by (simp add: visits.start initial_state_def precedence_nodes_def PrecedenceGraphNode_def
      seed_def append_absent_def dict_set_def onsets_from_def walk.simps walk_step_def
      onset_proposals_def choose_onset_def BaseOnsetsInferenceStrategy_def)

text \<open>
  Claim C5. In a state that the walk of \<open>onsets\<close> comes to, let the dequeued node have no
  onset and let all its predecessors have one; the candidate onsets are, per predecessor,
  its onset plus its duration. When the candidates disagree, under the permissive policy,
  which is the default, the node gets the largest candidate, a warning is logged, and
  the table and the warnings that \<open>onsets\<close> returns hold both; under the strict policy
  \<open>onsets\<close> raises \<open>ValueError\<close>. When the candidates agree, the node gets the common
  value, nothing is logged in that turn, and the table returned holds the value.
\<close>

theorem desynchronized_onsets:
  assumes "distinct (map fst entries)"
      and "visits strat (initial_state (precedence_nodes entries)) s"
      and "length (queue s) - qstart s > 0"
      and "p_nodes s (queue s ! qstart s) = Some q"
      and "onset q = None"
      and "nodes_at (p_nodes s) (p_inlinks q) = Inr prec_qs"
      and "\<forall>pq \<in> set prec_qs. onset pq \<noteq> None"
      and "proposals = map (\<lambda>pq. the (onset pq) + duration pq) prec_qs"
      and "s1 = s\<lparr> qstart := qstart s + 1,
                  queue := append_absent (queue s) (p_outlinks q) \<rparr>"
  shows "(Min (set proposals) \<noteq> Max (set proposals)
            \<and> permissive_desynchronization strat \<longrightarrow>
            walk_step strat s
              = Inr (Continue
                  (s1\<lparr> p_nodes := (p_nodes s)
                           (queue s ! qstart s \<mapsto> q\<lparr> onset := Some (Max (set proposals)) \<rparr>),
                       table := dict_set (table s) (queue s ! qstart s) (Max (set proposals)),
                       warnings := warnings s @ [Not_synchronized (queue s ! qstart s)] \<rparr>))
            \<and> onsets strat entries
              = onsets_from strat
                  (s1\<lparr> p_nodes := (p_nodes s)
                           (queue s ! qstart s \<mapsto> q\<lparr> onset := Some (Max (set proposals)) \<rparr>),
                       table := dict_set (table s) (queue s ! qstart s) (Max (set proposals)),
                       warnings := warnings s @ [Not_synchronized (queue s ! qstart s)] \<rparr>)
            \<and> (\<forall>t ws. onsets strat entries = Some (Inr (t, ws)) \<longrightarrow>
                   map_of t (queue s ! qstart s) = Some (Max (set proposals))
                   \<and> Not_synchronized (queue s ! qstart s) \<in> set ws))
       \<and> (Min (set proposals) \<noteq> Max (set proposals)
            \<and> \<not> permissive_desynchronization strat \<longrightarrow>
            onsets strat entries = Some (Inl ValueError))
       \<and> ((\<forall>c \<in> set proposals. c = hd proposals) \<longrightarrow>
            walk_step strat s
              = Inr (Continue
                  (s1\<lparr> p_nodes := (p_nodes s)
                           (queue s ! qstart s \<mapsto> q\<lparr> onset := Some (hd proposals) \<rparr>),
                       table := dict_set (table s) (queue s ! qstart s) (hd proposals),
                       warnings := warnings s \<rparr>))
            \<and> onsets strat entries
              = onsets_from strat
                  (s1\<lparr> p_nodes := (p_nodes s)
                           (queue s ! qstart s \<mapsto> q\<lparr> onset := Some (hd proposals) \<rparr>),
                       table := dict_set (table s) (queue s ! qstart s) (hd proposals),
                       warnings := warnings s \<rparr>)
            \<and> (\<forall>t ws. onsets strat entries = Some (Inr (t, ws)) \<longrightarrow>
                   map_of t (queue s ! qstart s) = Some (hd proposals)))
       \<and> permissive_desynchronization BaseOnsetsInferenceStrategy"
proof -
  let ?i = "queue s ! qstart s"
  let ?after = "\<lambda>new_onset ws.
      s1\<lparr> p_nodes := (p_nodes s)(?i \<mapsto> q\<lparr> onset := Some new_onset \<rparr>),
          table := dict_set (table s) ?i new_onset,
          warnings := warnings s @ ws \<rparr>"
  have "p_inlinks q \<noteq> []"
    using pending_as_seeded [OF assms(1-4)] assms(5) by auto
  then have "prec_qs \<noteq> []" using nodes_at_length [OF assms(6)] by auto
  then have ne: "proposals \<noteq> []" using assms(8) by simp
  have agree: "(\<forall>c \<in> set proposals. c = hd proposals)
               \<Longrightarrow> Min (set proposals) = Max (set proposals)"
  proof -
    assume a: "\<forall>c \<in> set proposals. c = hd proposals"
    have "set proposals = {hd proposals}" using a ne by (cases proposals) auto
    then show ?thesis by simp
  qed
  have step: "walk_step strat s =
        (case choose_onset strat ?i proposals of
           Inl e \<Rightarrow> Inl e
         | Inr (new_onset, ws) \<Rightarrow> Inr (Continue (?after new_onset ws)))"
    using assms(4,5,6,9) onset_proposals_resolved [OF assms(7)] assms(8)
    by (simp add: walk_step_def Let_def split: sum.splits prod.splits)
  have run: "onsets strat entries =
        (case walk_step strat s of
           Inl e \<Rightarrow> Some (Inl e)
         | Inr (Continue s') \<Rightarrow> onsets_from strat s'
         | Inr (Break s') \<Rightarrow> Some (Inr (table s', warnings s')))"
    using visits_onsets_from [OF assms(2)] turn_onsets_from [OF assms(3), of strat]
    by (simp add: onsets_def)
  have final: "\<And>new_onset ws t ws'.
      onsets_from strat (?after new_onset ws) = Some (Inr (t, ws')) \<Longrightarrow>
      map_of t ?i = Some new_onset \<and> set ws \<subseteq> set ws'"
  proof -
    fix new_onset ws t ws'
    assume r: "onsets_from strat (?after new_onset ws) = Some (Inr (t, ws'))"
    have "settled ?i new_onset (?after new_onset ws)"
      by (simp add: settled_def map_of_dict_set assms(9))
    then have a: "map_of t ?i = Some new_onset" using onsets_from_settled [OF r] by simp
    have "\<forall>w \<in> set ws. w \<in> set ws'"
      using onsets_from_warned [OF r] by (simp add: assms(9))
    then show "map_of t ?i = Some new_onset \<and> set ws \<subseteq> set ws'" using a by auto
  qed
  have permissive: "Min (set proposals) \<noteq> Max (set proposals)
            \<and> permissive_desynchronization strat \<longrightarrow>
            walk_step strat s
              = Inr (Continue (?after (Max (set proposals)) [Not_synchronized ?i]))
            \<and> onsets strat entries
              = onsets_from strat (?after (Max (set proposals)) [Not_synchronized ?i])
            \<and> (\<forall>t ws. onsets strat entries = Some (Inr (t, ws)) \<longrightarrow>
                   map_of t ?i = Some (Max (set proposals))
                   \<and> Not_synchronized ?i \<in> set ws)"
  proof (intro impI)
    assume a: "Min (set proposals) \<noteq> Max (set proposals)
               \<and> permissive_desynchronization strat"
    have st: "walk_step strat s
                = Inr (Continue (?after (Max (set proposals)) [Not_synchronized ?i]))"
      using a ne by (simp add: step choose_onset_def)
    have rn: "onsets strat entries
                = onsets_from strat (?after (Max (set proposals)) [Not_synchronized ?i])"
      using run st by simp
    show "walk_step strat s
              = Inr (Continue (?after (Max (set proposals)) [Not_synchronized ?i]))
            \<and> onsets strat entries
              = onsets_from strat (?after (Max (set proposals)) [Not_synchronized ?i])
            \<and> (\<forall>t ws. onsets strat entries = Some (Inr (t, ws)) \<longrightarrow>
                   map_of t ?i = Some (Max (set proposals))
                   \<and> Not_synchronized ?i \<in> set ws)"
      using st rn final [where new_onset = "Max (set proposals)" and ws = "[Not_synchronized ?i]"] by auto
  qed
  have strict: "Min (set proposals) \<noteq> Max (set proposals)
            \<and> \<not> permissive_desynchronization strat \<longrightarrow>
            onsets strat entries = Some (Inl ValueError)"
    using run ne by (simp add: step choose_onset_def)
  have agreed: "(\<forall>c \<in> set proposals. c = hd proposals) \<longrightarrow>
            walk_step strat s = Inr (Continue (?after (hd proposals) []))
            \<and> onsets strat entries = onsets_from strat (?after (hd proposals) [])
            \<and> (\<forall>t ws. onsets strat entries = Some (Inr (t, ws)) \<longrightarrow>
                   map_of t ?i = Some (hd proposals))"
  proof (intro impI)
    assume a: "\<forall>c \<in> set proposals. c = hd proposals"
    have st: "walk_step strat s = Inr (Continue (?after (hd proposals) []))"
      using agree [OF a] ne by (simp add: step choose_onset_def)
    have rn: "onsets strat entries = onsets_from strat (?after (hd proposals) [])"
      using run st by simp
    show "walk_step strat s = Inr (Continue (?after (hd proposals) []))
            \<and> onsets strat entries = onsets_from strat (?after (hd proposals) [])
            \<and> (\<forall>t ws. onsets strat entries = Some (Inr (t, ws)) \<longrightarrow>
                   map_of t ?i = Some (hd proposals))"
      using st rn final [where new_onset = "hd proposals" and ws = "[]"] by auto
  qed
  have dflt: "permissive_desynchronization BaseOnsetsInferenceStrategy"
    by (simp add: BaseOnsetsInferenceStrategy_def)
  show ?thesis using permissive strict agreed dflt by simp
qed

lemma converging_visited:
  "visits strat (initial_state (precedence_nodes converging_entries)) converging"
proof -
  let ?s0 = "initial_state (precedence_nodes converging_entries)"
  let ?s1 = "?s0\<lparr> qstart := 1, queue := [1, 2, 3], table := [(1, 0)] \<rparr>"
  have one: "visits strat ?s0 ?s1"
    by (rule visits.turn [OF visits.start])
       (simp_all add: initial_state_def precedence_nodes_def PrecedenceGraphNode_def
          converging_entries_def seed_def walk_step_def append_absent_def dict_set_def)
  have two: "visits strat ?s0 converging"
    by (rule visits.turn [OF one])
       (simp_all add: initial_state_def precedence_nodes_def PrecedenceGraphNode_def
          converging_entries_def seed_def walk_step_def append_absent_def dict_set_def
          converging_def pn_def)
  then show ?thesis .
qed

theorem desynchronized_onsets_witness:
  "onsets BaseOnsetsInferenceStrategy converging_entries
     = Some (Inr ([(1, 0), (2, 0), (3, 3)], [Not_synchronized 3]))
   \<and> onsets (BaseOnsetsInferenceStrategy \<lparr> permissive_desynchronization := False \<rparr>)
       converging_entries
     = Some (Inl ValueError)"
  using desynchronized_onsets
    [of converging_entries BaseOnsetsInferenceStrategy converging
        "pn [1, 2] [] None 1" "[pn [] [3] (Some 0) 1, pn [] [3] (Some 0) 3]"
        "[1, 3]" "converging \<lparr> qstart := 3 \<rparr>"]
    desynchronized_onsets
    [of converging_entries
        "BaseOnsetsInferenceStrategy \<lparr> permissive_desynchronization := False \<rparr>"
        converging
        "pn [1, 2] [] None 1" "[pn [] [3] (Some 0) 1, pn [] [3] (Some 0) 3]"
        "[1, 3]" "converging \<lparr> qstart := 3 \<rparr>"]
    converging_visited
  by (simp add: converging_def converging_entries_def pn_def append_absent_def dict_set_def
      BaseOnsetsInferenceStrategy_def onsets_from_def walk.simps)

section \<open>Ties\<close>

lemma merge_tie_frame:
  assumes "b \<le> new_durations" and "b \<le> new_onsets"
  shows "same_below b h (snd (merge_tie new_durations new_onsets l r h))"
  using assms
  by (auto simp: merge_tie_def same_below_def store_def Let_def split: sum.splits)

lemma tie_step_frame:
  assumes "b \<le> new_durations" and "b \<le> new_onsets"
  shows "same_below b h (snd (tie_step g new_durations new_onsets k h))"
proof -
  have refl: "same_below b h h" by (simp add: same_below_def)
  show ?thesis
    using merge_tie_frame [OF assms] refl
    by (auto simp: tie_step_def Let_def split: sum.splits option.splits)
qed

lemma same_below_trans:
  "same_below b h h' \<Longrightarrow> same_below b h' h'' \<Longrightarrow> same_below b h h''"
  by (simp add: same_below_def)

lemma tie_loop_frame:
  assumes "b \<le> new_durations" and "b \<le> new_onsets"
  shows "same_below b h (snd (tie_loop g new_durations new_onsets ks h))"
proof (induction ks arbitrary: h)
  case Nil
  show ?case by (simp add: same_below_def)
next
  case (Cons k ks)
  obtain e h' where st: "tie_step g new_durations new_onsets k h = (e, h')"
    by (cases "tie_step g new_durations new_onsets k h")
  have one: "same_below b h h'" using tie_step_frame [OF assms, of h g k] st by simp
  show ?case
  proof (cases e)
    case None
    then show ?thesis using st one Cons.IH [of h'] same_below_trans by auto
  next
    case (Some a)
    then show ?thesis using st one by simp
  qed
qed

text \<open>
  Claim C10. Whatever the call does, returning or raising, the two dictionaries passed to
  \<open>process_ties\<close> hold afterwards what they held before, as does every object that existed
  before the call; the two dictionaries returned are distinct objects that did not exist
  before the call.
\<close>

theorem process_ties_frame:
  assumes "heap_ok h"
      and "dicts h durations = Some d0"
      and "dicts h onsets_ref = Some o0"
  shows "dicts (fst (process_ties h ns durations onsets_ref)) durations = Some d0
       \<and> dicts (fst (process_ties h ns durations onsets_ref)) onsets_ref = Some o0
       \<and> (\<forall>a. a < next_free h \<longrightarrow>
              dicts (fst (process_ties h ns durations onsets_ref)) a = dicts h a)
       \<and> (\<forall>result_durations result_onsets.
              snd (process_ties h ns durations onsets_ref)
                = Inr (result_durations, result_onsets) \<longrightarrow>
              dicts h result_durations = None \<and> dicts h result_onsets = None
              \<and> result_durations \<noteq> result_onsets
              \<and> result_durations \<noteq> durations \<and> result_durations \<noteq> onsets_ref
              \<and> result_onsets \<noteq> durations \<and> result_onsets \<noteq> onsets_ref
              \<and> dicts (fst (process_ties h ns durations onsets_ref)) result_durations \<noteq> None
              \<and> dicts (fst (process_ties h ns durations onsets_ref)) result_onsets \<noteq> None)"
proof -
  let ?b = "next_free h"
  let ?g = "NotationGraph ns"
  define h1 where "h1 = fst (deepcopy h onsets_ref)"
  define h2 where "h2 = fst (deepcopy h1 durations)"
  have no: "snd (deepcopy h onsets_ref) = ?b" by (simp add: deepcopy_def alloc_def)
  have nd: "snd (deepcopy h1 durations) = Suc ?b"
    by (simp add: h1_def deepcopy_def alloc_def)
  have below: "durations < ?b" "onsets_ref < ?b"
    using assms by (auto simp: heap_ok_def intro: ccontr)
  have h2_same: "\<forall>a. a < ?b \<longrightarrow> dicts h2 a = dicts h a"
    by (simp add: h2_def h1_def deepcopy_def alloc_def)
  have h2_new: "dicts h2 ?b \<noteq> None" "dicts h2 (Suc ?b) \<noteq> None" "next_free h2 = Suc (Suc ?b)"
    by (simp_all add: h2_def h1_def deepcopy_def alloc_def)
  obtain e h3 where lp: "tie_loop ?g (Suc ?b) ?b (tie_order (contents h2 onsets_ref)) h2 = (e, h3)"
    by (cases "tie_loop ?g (Suc ?b) ?b (tie_order (contents h2 onsets_ref)) h2")
  have fr: "same_below ?b h2 h3"
    using tie_loop_frame [where b = ?b and new_durations = "Suc ?b" and new_onsets = ?b
        and h = h2 and g = ?g and ks = "tie_order (contents h2 onsets_ref)"] lp
    by simp
  have pt: "process_ties h ns durations onsets_ref =
        (case e of
           Some err \<Rightarrow> (h3, Inl err)
         | None \<Rightarrow>
             (case restrict_to (contents h3 (Suc ?b)) (dict_keys (contents h3 ?b)) of
                Inl err \<Rightarrow> (h3, Inl err)
              | Inr d \<Rightarrow> (fst (alloc h3 d), Inr (snd (alloc h3 d), ?b))))"
    using lp no nd
    by (simp add: process_ties_def Let_def h1_def h2_def split_beta split: option.splits sum.splits)
  have h3_same: "\<forall>a. a < ?b \<longrightarrow> dicts h3 a = dicts h a"
    using fr h2_same by (simp add: same_below_def)
  have h3_next: "next_free h3 = Suc (Suc ?b)"
    using fr h2_new by (simp add: same_below_def)
  have fresh: "dicts h ?b = None" "dicts h (Suc ?b) = None" "dicts h (Suc (Suc ?b)) = None"
    using assms(1) by (simp_all add: heap_ok_def)
  have h3_new: "dicts h3 ?b \<noteq> None"
    using fr h2_new by (simp add: same_below_def)
  show ?thesis
    unfolding pt
    using assms(2,3) below h3_same h3_next h3_new fresh
    by (auto simp: alloc_def split: option.splits sum.splits)
qed


lemma tied_pair_run:
  "snd (process_ties two_tables tied_pair 0 1) = Inr (4, 2)
   \<and> contents (fst (process_ties two_tables tied_pair 0 1)) 4 = [(1, 2)]
   \<and> contents (fst (process_ties two_tables tied_pair 0 1)) 2 = [(1, 0)]"
  by code_simp

lemma tie_order_sorted:
  "tie_order d = map fst (sort_key (\<lambda>(k, v). - v) d)
   \<and> set (sort_key (\<lambda>(k, v). - v) d) = set d
   \<and> length (sort_key (\<lambda>(k, v). - v) d) = length d
   \<and> sorted_wrt (\<lambda>a b. snd a \<ge> snd b) (sort_key (\<lambda>(k, v). - v) d)"
proof -
  have "sorted (map (\<lambda>(k, v). - v) (sort_key (\<lambda>(k, v). - v) d))"
    by (rule sorted_sort_key)
  then have "sorted_wrt (\<lambda>a b. snd a \<ge> snd b) (sort_key (\<lambda>(k, v). - v) d)"
    by (simp add: sorted_wrt_map sorted_wrt_iff_nth_less split_beta)
  then show ?thesis by (simp add: tie_order_def)
qed

text \<open>
  Claim C6. The keys are processed by falling onset. For the key \<open>k\<close> and the tie chosen
  for it: no notehead on the tie raises \<open>NotationGraphError\<close>, more than two raise
  \<open>NotationGraphError\<close>, and one leaves the tables alone; with two noteheads, \<open>k\<close> being
  the left one, the duration of \<open>k\<close> grows by the duration of the right one and the id of
  the right one is deleted from the new onset table, which is the onset table returned;
  with \<open>k\<close> the right one nothing changes.
\<close>

theorem tie_step_cases:
  assumes "children g k (Some [TIE_CLASS_NAME]) = Inr ties" and "ties \<noteq> []"
      and "tie = (if length ties > 1 then max_by n_left ties else hd ties)"
      and "id_to_node_mapping g k = Some n" and "node_id n = k"
      and "parents g (node_id tie) (Some [NOTEHEAD_FULL, NOTEHEAD_HALF, NOTEHEAD_WHOLE])
             = Inr notes"
  shows "(notes = [] \<longrightarrow>
            tie_step g new_durations new_onsets k h = (Some NotationGraphError, h))
       \<and> (length notes > 2 \<longrightarrow>
            tie_step g new_durations new_onsets k h = (Some NotationGraphError, h))
       \<and> (length notes = 1 \<longrightarrow> tie_step g new_durations new_onsets k h = (None, h))
       \<and> (\<forall>l r dl dr.
            sort_key n_left notes = [l, r] \<and> node_id l = k \<and> new_durations \<noteq> new_onsets
            \<and> map_of (contents h new_durations) k = Some dl
            \<and> map_of (contents h new_durations) (node_id r) = Some dr
            \<and> map_of (contents h new_onsets) (node_id r) \<noteq> None \<longrightarrow>
            tie_step g new_durations new_onsets k h
              = (None,
                 store (store h new_durations
                          (dict_set (contents h new_durations) k (dl + dr)))
                   new_onsets (AList.delete (node_id r) (contents h new_onsets))))
       \<and> (\<forall>l r. sort_key n_left notes = [l, r] \<and> node_id l \<noteq> k \<longrightarrow>
            tie_step g new_durations new_onsets k h = (None, h))
       \<and> (\<forall>d. tie_order d = map fst (sort_key (\<lambda>(k, v). - v) d)
              \<and> set (sort_key (\<lambda>(k, v). - v) d) = set d
              \<and> length (sort_key (\<lambda>(k, v). - v) d) = length d
              \<and> sorted_wrt (\<lambda>a b. snd a \<ge> snd b) (sort_key (\<lambda>(k, v). - v) d))"
proof -
  have len2: "\<And>l r. sort_key n_left notes = [l, r] \<Longrightarrow> length notes = 2"
    using length_sort [of n_left "notes"] by simp
  have step: "tie_step g new_durations new_onsets k h =
        (case get_tie_notes g tie of
           Inl e \<Rightarrow> (Some e, h)
         | Inr tie_notes \<Rightarrow>
             if length tie_notes \<noteq> 2 then (None, h)
             else if node_id (tie_notes ! 0) = k
             then merge_tie new_durations new_onsets
                    (node_id (tie_notes ! 0)) (node_id (tie_notes ! 1)) h
             else (None, h))"
    using assms(1-5) by (simp add: tie_step_def Let_def split: sum.splits)
  have notes_cases: "get_tie_notes g tie =
        (if length notes = 0 then Inl NotationGraphError
         else if length notes = 1 then Inr [hd notes]
         else if length notes > 2 then Inl NotationGraphError
         else Inr (sort_key n_left notes))"
    using assms(6) by (simp add: get_tie_notes_def)
  show ?thesis
    using len2 tie_order_sorted
    by (auto simp: step notes_cases merge_tie_def dict_get_def dict_del_def dict_contains_def
        store_def contents_def Let_def)
qed

theorem tie_step_cases_witness:
  "tie_step (NotationGraph tied_pair) 3 2 1 copied_tables
     = (None, copied_tables \<lparr> dicts := (dicts copied_tables)
                                  (3 \<mapsto> [(1, 2), (2, 1)], 2 \<mapsto> [(1, 0)]) \<rparr>)"
  using tie_step_cases
    [of "NotationGraph tied_pair" 1 "[boxed 3 ''tie'' 12 5 16 45 [1, 2] []]"
        "boxed 3 ''tie'' 12 5 16 45 [1, 2] []"
        "boxed 1 ''noteheadFull'' 0 0 10 10 [] [3]"
        "[boxed 1 ''noteheadFull'' 0 0 10 10 [] [3], boxed 2 ''noteheadFull'' 0 40 10 50 [] [3]]"
        3 2 copied_tables]
  by (simp add: tied_pair_def copied_tables_def NotationGraph_def boxed_def children_def
      parents_def neighbours_def passes_def List.map_filter_def TIE_CLASS_NAME_def
      NOTEHEAD_FULL_def NOTEHEAD_HALF_def NOTEHEAD_WHOLE_def contents_def store_def
      dict_set_def)

theorem process_ties_frame_witness:
  "dicts (fst (process_ties two_tables tied_pair 0 1)) 0 = Some [(1, 1), (2, 1)]
   \<and> dicts (fst (process_ties two_tables tied_pair 0 1)) 1 = Some [(1, 0), (2, 1)]"
  using process_ties_frame [of two_tables 0 "[(1, 1), (2, 1)]" 1 "[(1, 0), (2, 1)]" tied_pair]
  by (simp add: two_tables_def heap_ok_def)


end
